theory Spec2Isabelle
  imports Main
begin

section \<open>Values of the script\<close>

text \<open>
  The migration script \<^verbatim>\<open>gcp-r2-migration.ts\<close> exists in two variants with the same
  scan and different per-folder steps: the full key-set diff with a retrying worker pool
  (variant A, \<^verbatim>\<open>src/gcp-r2-migration.ts\<close>) and the folder presence check with a sequential
  transfer (variant B, \<^verbatim>\<open>src/unnamed/part_000\<close>).

  A JavaScript value that may be \<^verbatim>\<open>undefined\<close> or \<^verbatim>\<open>null\<close> is an \<open>option\<close>; a thrown value
  is an \<open>error\<close>; a timestamp is the number of milliseconds of the \<^verbatim>\<open>Date\<close>, \<open>None\<close> for an
  invalid date (whose comparisons are all false).
\<close>

datatype error = Error string

datatype dl_outcome =
    DlThrows error
  | DlBuffer "string option"

text \<open>
  A source object as the listing returns it: \<^verbatim>\<open>file.name\<close>, \<^verbatim>\<open>file.metadata.timeCreated\<close>,
  \<^verbatim>\<open>file.metadata.contentType\<close>, and \<^verbatim>\<open>file.download()\<close>, whose \<open>i\<close>-th call on this object
  (counted from 0) throws or resolves to \<^verbatim>\<open>[buffer]\<close>.
\<close>

record gfile =
  name :: string
  timeCreated :: "int option"
  contentType :: "string option"
  download :: "nat \<Rightarrow> dl_outcome"

record config =
  GCP_INTERNAL_PATH :: string
  FOLDER_DATE_CHECK_FILE :: string
  MINIMUM_DATE :: int
  BATCH_SIZE :: nat

record getfiles_options =
  prefix :: string
  maxResults :: "nat option"
  pageToken :: "string option"

record list_request =
  Prefix :: string
  MaxKeys :: "nat option"
  ContinuationToken :: "string option"

record list_response =
  Contents :: "string option list option"
  NextContinuationToken :: "string option"

record put_command =
  Key :: string
  Body :: "string option"
  ContentType :: "string option"

text \<open>
  The two stores as the script sees them. The source does not change during a run, so
  \<open>getFiles\<close> is a function of the request; it returns the files and
  \<^verbatim>\<open>apiResponse.nextPageToken\<close>. The destination listing is a function of the bucket's
  current contents and the request. \<open>putObject\<close> says for which commands the upload throws.
\<close>

record env =
  getFiles :: "getfiles_options \<Rightarrow> error + (gfile list \<times> string option)"
  listObjectsV2 :: "put_command list \<Rightarrow> list_request \<Rightarrow> error + list_response"
  putObject :: "put_command \<Rightarrow> error option"

text \<open>Everything the script does to the outside, in order: calls and console lines.\<close>

datatype event =
    CallGetFiles getfiles_options
  | CallList list_request
  | CallDownload string nat
  | CallPut put_command
  | Wait nat
  | LogGettingList string
  | LogSearching int
  | LogNoFilesFound
  | LogRequest nat nat nat nat
  | LogNoNewFolders
  | LogScanComplete nat
  | LogAllNewFolders "string option list"
  | LogStartingMigration
  | LogStartFolder "string option"
  | LogFoundExisting nat
  | LogFoundInGcp nat nat
  | LogFullySynced
  | LogAlreadyExists "string option"
  | LogNotFoundInS3 "string option"
  | LogFoundToTransfer nat
  | LogFolderEmpty
  | LogFoldersMigrated nat nat int
  | LogRetrying string nat
  | LogDownloadFailed error
  | LogSkipping string
  | LogTransferred nat nat string
  | LogFolderComplete "string option"
  | LogFinished
  | LogOverallError error

record world =
  bucket :: "put_command list"
  trace :: "event list"

definition emit :: "event \<Rightarrow> world \<Rightarrow> world" where
  "emit e w = w\<lparr>trace := trace w @ [e]\<rparr>"

section \<open>JavaScript primitives\<close>

text \<open>Truthiness of a possibly undefined string: undefined and the empty string are falsy.\<close>

fun truthy :: "string option \<Rightarrow> bool" where
  "truthy None = False"
| "truthy (Some s) = (s \<noteq> [])"

text \<open>A template literal prints an undefined value as the word.\<close>

fun js_str :: "string option \<Rightarrow> string" where
  "js_str None = ''undefined''"
| "js_str (Some s) = s"

text \<open>\<^verbatim>\<open>String.prototype.split\<close> with a one-character separator: never empty.\<close>

fun split :: "char \<Rightarrow> string \<Rightarrow> string list" where
  "split c [] = [[]]"
| "split c (x # xs) =
     (if x = c then [] # split c xs
      else (case split c xs of [] \<Rightarrow> [[x]] | s # ss \<Rightarrow> (x # s) # ss))"

text \<open>\<^verbatim>\<open>Set.prototype.add\<close> on a set kept in insertion order, as \<^verbatim>\<open>Array.from\<close> reads it.\<close>

definition set_add :: "'a \<Rightarrow> 'a list \<Rightarrow> 'a list" where
  "set_add x xs = (if x \<in> set xs then xs else xs @ [x])"

section \<open>Step 1: the scan\<close>

text \<open>\<^verbatim>\<open>pathParts[pathParts.length - 2]\<close> is undefined for a key without a slash.\<close>

definition folderNameOf :: "string \<Rightarrow> string option" where
  "folderNameOf key =
     (let pathParts = split CHR ''/'' key
      in if 2 \<le> length pathParts then Some (pathParts ! (length pathParts - 2)) else None)"

definition fileNameOf :: "string \<Rightarrow> string" where
  "fileNameOf key = last (split CHR ''/'' key)"

record scan_state =
  recentFoldersFound :: "string option list"
  totalFilesCount :: nat
  requestCount :: nat
  allFoldersFoundInTotal :: "string option list"

definition isRecent :: "config \<Rightarrow> gfile \<Rightarrow> bool" where
  "isRecent cfg file =
     (case timeCreated file of None \<Rightarrow> False | Some t \<Rightarrow> MINIMUM_DATE cfg \<le> t)"

text \<open>The body of \<^verbatim>\<open>for (const file of files)\<close>; the second component is \<^verbatim>\<open>recentFoundInBatch\<close>.\<close>

definition classifyFile :: "config \<Rightarrow> scan_state \<times> nat \<Rightarrow> gfile \<Rightarrow> scan_state \<times> nat" where
  "classifyFile cfg acc file =
     (let st = fst acc; recentFoundInBatch = snd acc;
          folderName = folderNameOf (name file);
          fileName = fileNameOf (name file);
          st1 = (if truthy folderName \<and> fileName \<noteq> []
                 then st\<lparr>allFoldersFoundInTotal := set_add folderName (allFoldersFoundInTotal st)\<rparr>
                 else st)
      in if fileName = FOLDER_DATE_CHECK_FILE cfg
         then (if isRecent cfg file
               then (st1\<lparr>recentFoldersFound := set_add folderName (recentFoldersFound st1)\<rparr>,
                     recentFoundInBatch + 1)
               else (st1, recentFoundInBatch))
         else (st1, recentFoundInBatch))"

definition classifyFiles :: "config \<Rightarrow> scan_state \<Rightarrow> gfile list \<Rightarrow> scan_state \<times> nat" where
  "classifyFiles cfg st files = foldl (classifyFile cfg) (st, 0) files"

definition scanOptions :: "config \<Rightarrow> string option \<Rightarrow> getfiles_options" where
  "scanOptions cfg tok =
     \<lparr>prefix = GCP_INTERNAL_PATH cfg, maxResults = Some (BATCH_SIZE cfg),
      pageToken = (if truthy tok then tok else None)\<rparr>"

text \<open>
  The \<^verbatim>\<open>do ... while (pageToken)\<close> loop. The first argument bounds the number of requests;
  \<open>None\<close> means the bound was reached with the loop still running.
\<close>

fun scanLoop ::
  "nat \<Rightarrow> config \<Rightarrow> env \<Rightarrow> string option \<Rightarrow> scan_state \<Rightarrow> world
     \<Rightarrow> ((error + scan_state) \<times> world) option" where
  "scanLoop 0 cfg env tok st w = None"
| "scanLoop (Suc n) cfg env tok st w =
     (let st1 = st\<lparr>requestCount := requestCount st + 1\<rparr>;
          w1 = emit (CallGetFiles (scanOptions cfg tok)) w
      in case getFiles env (scanOptions cfg tok) of
           Inl e \<Rightarrow> Some (Inl e, w1)
         | Inr r \<Rightarrow>
             (if fst r = []
              then Some (Inr st1, if \<not> truthy tok then emit LogNoFilesFound w1 else w1)
              else
                (let st2 = st1\<lparr>totalFilesCount := totalFilesCount st1 + length (fst r)\<rparr>;
                     c = classifyFiles cfg st2 (fst r);
                     w2 = emit (LogRequest (requestCount (fst c)) (totalFilesCount (fst c))
                                  (length (allFoldersFoundInTotal (fst c))) (snd c)) w1
                 in if truthy (snd r) then scanLoop n cfg env (snd r) (fst c) w2
                    else Some (Inr (fst c), w2))))"

definition initialScan :: scan_state where
  "initialScan =
     \<lparr>recentFoldersFound = [], totalFilesCount = 0, requestCount = 0,
      allFoldersFoundInTotal = []\<rparr>"

section \<open>Step 2, variant A: full key-set diff and the worker pool\<close>

text \<open>The template literal \<^verbatim>\<open>`${GCP_INTERNAL_PATH}${folderName}/`\<close>, used for both listings.\<close>

definition folderPrefix :: "config \<Rightarrow> string option \<Rightarrow> string" where
  "folderPrefix cfg folderName = GCP_INTERNAL_PATH cfg @ js_str folderName @ ''/''"

text \<open>\<^verbatim>\<open>listResponse.Contents.forEach(item => { if (item.Key) r2Files.add(item.Key) })\<close>\<close>

definition addKeys :: "string list \<Rightarrow> string option list \<Rightarrow> string list" where
  "addKeys r2Files items =
     foldl (\<lambda>acc item. case item of None \<Rightarrow> acc
                         | Some k \<Rightarrow> if k \<noteq> [] then set_add k acc else acc) r2Files items"

definition diffListParams :: "config \<Rightarrow> string option \<Rightarrow> list_request" where
  "diffListParams cfg folderName =
     \<lparr>Prefix = folderPrefix cfg folderName, MaxKeys = None, ContinuationToken = None\<rparr>"

text \<open>
  The \<^verbatim>\<open>do ... while (r2ContinuationToken)\<close> loop. \<^verbatim>\<open>listParams\<close> is built from the bucket
  and the prefix alone in every round: the token read from the response is only the loop
  condition. The first argument bounds the number of requests.
\<close>

fun r2ListLoop ::
  "nat \<Rightarrow> config \<Rightarrow> env \<Rightarrow> string option \<Rightarrow> string list \<Rightarrow> world
     \<Rightarrow> ((error + string list) \<times> world) option" where
  "r2ListLoop 0 cfg env folderName r2Files w = None"
| "r2ListLoop (Suc n) cfg env folderName r2Files w =
     (let w1 = emit (CallList (diffListParams cfg folderName)) w
      in case listObjectsV2 env (bucket w) (diffListParams cfg folderName) of
           Inl e \<Rightarrow> Some (Inl e, w1)
         | Inr listResponse \<Rightarrow>
             (let r2Files1 = (case Contents listResponse of None \<Rightarrow> r2Files
                              | Some items \<Rightarrow> addKeys r2Files items)
              in if truthy (NextContinuationToken listResponse)
                 then r2ListLoop n cfg env folderName r2Files1 w1
                 else Some (Inr r2Files1, w1)))"

definition filesToMigrate :: "string list \<Rightarrow> gfile list \<Rightarrow> gfile list" where
  "filesToMigrate r2Files gcpFiles = filter (\<lambda>file. name file \<notin> set r2Files) gcpFiles"

definition folderOptions :: "config \<Rightarrow> string option \<Rightarrow> getfiles_options" where
  "folderOptions cfg folderName =
     \<lparr>prefix = folderPrefix cfg folderName, maxResults = None, pageToken = None\<rparr>"

text \<open>
  Steps 1 to 3 of a folder: the destination keys, the source files, the files to migrate.
  The result is \<open>(r2Files, gcpFiles, filesToMigrate)\<close>.
\<close>

definition diffFolder ::
  "nat \<Rightarrow> config \<Rightarrow> env \<Rightarrow> string option \<Rightarrow> world
     \<Rightarrow> ((error + string list \<times> gfile list \<times> gfile list) \<times> world) option" where
  "diffFolder fuel cfg env folderName w =
     (case r2ListLoop fuel cfg env folderName [] w of
        None \<Rightarrow> None
      | Some (Inl e, w1) \<Rightarrow> Some (Inl e, w1)
      | Some (Inr r2Files, w1) \<Rightarrow>
          (let w2 = emit (LogFoundExisting (length r2Files)) w1;
               w3 = emit (CallGetFiles (folderOptions cfg folderName)) w2
           in case getFiles env (folderOptions cfg folderName) of
                Inl e \<Rightarrow> Some (Inl e, w3)
              | Inr r \<Rightarrow>
                  Some (Inr (r2Files, fst r, filesToMigrate r2Files (fst r)),
                        emit (LogFoundInGcp (length (fst r))
                                (length (filesToMigrate r2Files (fst r)))) w3)))"

text \<open>The store after a successful PutObject: the key holds the new object.\<close>

definition putInto :: "put_command \<Rightarrow> put_command list \<Rightarrow> put_command list" where
  "putInto cmd b = cmd # filter (\<lambda>obj. Key obj \<noteq> Key cmd) b"

text \<open>\<^verbatim>\<open>await s3.send(new PutObjectCommand(uploadParams))\<close>: \<open>Some e\<close> when it throws.\<close>

definition s3Put :: "env \<Rightarrow> put_command \<Rightarrow> world \<Rightarrow> error option \<times> world" where
  "s3Put env cmd w =
     (let w1 = emit (CallPut cmd) w
      in case putObject env cmd of
           Some e \<Rightarrow> (Some e, w1)
         | None \<Rightarrow> (None, w1\<lparr>bucket := putInto cmd (bucket w1)\<rparr>))"

text \<open>
  \<^verbatim>\<open>for (let i = 0; i < 3; i++) { try { ... } catch (e) { ... } }\<close>: the buffer of the first
  attempt whose result is truthy, \<open>None\<close> when \<^verbatim>\<open>downloadSuccess\<close> stays false. A Buffer
  object is truthy whatever its length; \<^verbatim>\<open>null\<close> and \<^verbatim>\<open>undefined\<close> are not.
\<close>

function downloadAttempts :: "gfile \<Rightarrow> nat \<Rightarrow> world \<Rightarrow> string option \<times> world" where
  "downloadAttempts file i w =
     (if i < 3
      then (let w1 = emit (CallDownload (name file) i) w
            in case download file i of
                 DlBuffer (Some fileBuffer) \<Rightarrow> (Some fileBuffer, w1)
               | DlBuffer None \<Rightarrow>
                   downloadAttempts file (i + 1)
                     (emit (Wait 1000)
                       (emit (LogDownloadFailed (Error ''Downloaded buffer is null or undefined.''))
                         (emit (LogRetrying (name file) (i + 1)) w1)))
               | DlThrows e \<Rightarrow>
                   downloadAttempts file (i + 1)
                     (emit (Wait 1000)
                       (emit (LogDownloadFailed e)
                         (emit (LogRetrying (name file) (i + 1)) w1))))
      else (None, w))"
  by pat_completeness auto
termination
  by (relation "measure (\<lambda>(file, i, w). 3 - i)") auto

declare downloadAttempts.simps [simp del]

definition uploadParams :: "gfile \<Rightarrow> string \<Rightarrow> put_command" where
  "uploadParams file fileBuffer =
     \<lparr>Key = name file,
      Body = Some (if length fileBuffer > 0 then fileBuffer else []),
      ContentType = Some (if truthy (contentType file) then js_str (contentType file)
                          else ''application/octet-stream'')\<rparr>"

text \<open>
  The task given to \<^verbatim>\<open>limit\<close>. The result is the rejection of its promise (if any), the
  world, and the shared \<^verbatim>\<open>transferredCount\<close>.
\<close>

definition transferTask ::
  "env \<Rightarrow> nat \<Rightarrow> gfile \<Rightarrow> world \<Rightarrow> nat \<Rightarrow> error option \<times> world \<times> nat" where
  "transferTask env totalFilesToTransfer file w transferredCount =
     (case downloadAttempts file 0 w of
        (None, w1) \<Rightarrow> (None, emit (LogSkipping (name file)) w1, transferredCount)
      | (Some fileBuffer, w1) \<Rightarrow>
          (case s3Put env (uploadParams file fileBuffer) w1 of
             (Some e, w2) \<Rightarrow> (Some e, w2, transferredCount)
           | (None, w2) \<Rightarrow>
               (None,
                emit (LogTransferred (transferredCount + 1) totalFilesToTransfer (name file)) w2,
                transferredCount + 1)))"

text \<open>
  \<^verbatim>\<open>await Promise.all(filesToMigrate.map(file => limit(...)))\<close>, in the schedule that runs
  the tasks one after the other in list order. Every task is queued before the first one
  starts and the limiter starts the next task when one settles, fulfilled or rejected, so
  every task runs; the awaited promise rejects with the first rejection. The calls and
  lines of a task do not depend on the schedule; their order among the tasks does, and
  so does the place of the handler's error line, which this schedule puts after the
  last task.
\<close>

fun runPool ::
  "env \<Rightarrow> nat \<Rightarrow> gfile list \<Rightarrow> error option \<Rightarrow> world \<Rightarrow> nat \<Rightarrow> error option \<times> world \<times> nat" where
  "runPool env totalFiles [] rej w transferredCount = (rej, w, transferredCount)"
| "runPool env totalFiles (file # files) rej w transferredCount =
     (case transferTask env totalFiles file w transferredCount of
        (r, w1, c1) \<Rightarrow>
          runPool env totalFiles files (case rej of None \<Rightarrow> r | Some e \<Rightarrow> Some e) w1 c1)"

definition logMigrated :: "nat \<Rightarrow> nat \<Rightarrow> event" where
  "logMigrated migratedFoldersCount totalFoldersToMigrate =
     LogFoldersMigrated migratedFoldersCount totalFoldersToMigrate
       (int totalFoldersToMigrate - int migratedFoldersCount)"

text \<open>One round of \<^verbatim>\<open>for (const folderName of finalFolders)\<close>; the result is the new
  \<^verbatim>\<open>migratedFoldersCount\<close>, or the error thrown out of the round.\<close>

definition processFolderA ::
  "nat \<Rightarrow> config \<Rightarrow> env \<Rightarrow> nat \<Rightarrow> string option \<Rightarrow> world \<Rightarrow> nat
     \<Rightarrow> ((error + nat) \<times> world) option" where
  "processFolderA fuel cfg env totalFoldersToMigrate folderName w migratedFoldersCount =
     (case diffFolder fuel cfg env folderName (emit (LogStartFolder folderName) w) of
        None \<Rightarrow> None
      | Some (Inl e, w1) \<Rightarrow> Some (Inl e, w1)
      | Some (Inr (r2Files, gcpFiles, todo), w1) \<Rightarrow>
          (if length todo = 0
           then Some (Inr (migratedFoldersCount + 1),
                      emit (logMigrated (migratedFoldersCount + 1) totalFoldersToMigrate)
                        (emit LogFullySynced w1))
           else (case runPool env (length todo) todo None w1 0 of
                   (Some e, w2, c) \<Rightarrow> Some (Inl e, w2)
                 | (None, w2, c) \<Rightarrow>
                     Some (Inr (migratedFoldersCount + 1),
                           emit (logMigrated (migratedFoldersCount + 1) totalFoldersToMigrate)
                             (emit (LogFolderComplete folderName) w2)))))"

fun migrateFoldersA ::
  "nat \<Rightarrow> config \<Rightarrow> env \<Rightarrow> nat \<Rightarrow> string option list \<Rightarrow> world \<Rightarrow> nat
     \<Rightarrow> ((error + nat) \<times> world) option" where
  "migrateFoldersA fuel cfg env totalFolders [] w migratedFoldersCount =
     Some (Inr migratedFoldersCount, w)"
| "migrateFoldersA fuel cfg env totalFolders (folderName # rest) w migratedFoldersCount =
     (case processFolderA fuel cfg env totalFolders folderName w migratedFoldersCount of
        None \<Rightarrow> None
      | Some (Inl e, w1) \<Rightarrow> Some (Inl e, w1)
      | Some (Inr m, w1) \<Rightarrow> migrateFoldersA fuel cfg env totalFolders rest w1 m)"

text \<open>The scan and what is printed after it; shared by both variants.\<close>

definition scanPhase ::
  "nat \<Rightarrow> config \<Rightarrow> env \<Rightarrow> world \<Rightarrow> ((error + string option list) \<times> world) option" where
  "scanPhase fuel cfg env w =
     (case scanLoop fuel cfg env None initialScan
             (emit (LogSearching (MINIMUM_DATE cfg))
               (emit (LogGettingList (GCP_INTERNAL_PATH cfg)) w)) of
        None \<Rightarrow> None
      | Some (Inl e, w1) \<Rightarrow> Some (Inl e, w1)
      | Some (Inr st, w1) \<Rightarrow>
          (let finalFolders = recentFoldersFound st;
               w2 = (if length finalFolders = 0 then emit LogNoNewFolders w1
                     else emit (LogAllNewFolders finalFolders)
                            (emit (LogScanComplete (length finalFolders)) w1))
           in Some (Inr finalFolders, emit LogStartingMigration w2)))"

text \<open>The body of the \<^verbatim>\<open>try\<close> block.\<close>

definition tryBodyA ::
  "nat \<Rightarrow> config \<Rightarrow> env \<Rightarrow> world \<Rightarrow> ((error + unit) \<times> world) option" where
  "tryBodyA fuel cfg env w =
     (case scanPhase fuel cfg env w of
        None \<Rightarrow> None
      | Some (Inl e, w1) \<Rightarrow> Some (Inl e, w1)
      | Some (Inr finalFolders, w1) \<Rightarrow>
          (case migrateFoldersA fuel cfg env (length finalFolders) finalFolders w1 0 of
             None \<Rightarrow> None
           | Some (Inl e, w2) \<Rightarrow> Some (Inl e, w2)
           | Some (Inr m, w2) \<Rightarrow> Some (Inr (), emit LogFinished w2)))"

text \<open>
  How the promise returned by the \<^verbatim>\<open>async\<close> function settles. The call on the last line
  of the script is not awaited and nothing sets an exit code, so the process exits with
  0 when the promise is fulfilled and with the runtime's code for an unhandled rejection, 1, when it is rejected.
\<close>

datatype promise = Fulfilled | Rejected error


text \<open>\<^verbatim>\<open>try { ... } catch (error) { console.error(..., error) }\<close>\<close>

definition findAndProcessRecentFolders ::
  "nat \<Rightarrow> config \<Rightarrow> env \<Rightarrow> world \<Rightarrow> (promise \<times> world) option" where
  "findAndProcessRecentFolders fuel cfg env w =
     (case tryBodyA fuel cfg env w of
        None \<Rightarrow> None
      | Some (Inl e, w1) \<Rightarrow> Some (Fulfilled, emit (LogOverallError e) w1)
      | Some (Inr u, w1) \<Rightarrow> Some (Fulfilled, w1))"

section \<open>Step 2, variant B: presence check and sequential transfer\<close>

definition presenceListParams :: "config \<Rightarrow> string option \<Rightarrow> list_request" where
  "presenceListParams cfg folderName =
     \<lparr>Prefix = folderPrefix cfg folderName, MaxKeys = Some 1, ContinuationToken = None\<rparr>"

definition uploadParamsB :: "gfile \<Rightarrow> string option \<Rightarrow> put_command" where
  "uploadParamsB file buf = \<lparr>Key = name file, Body = buf, ContentType = contentType file\<rparr>"

text \<open>\<^verbatim>\<open>for (const file of gcpFiles)\<close>: one download, one upload; a throw leaves the loop.\<close>

fun transferFilesB ::
  "env \<Rightarrow> nat \<Rightarrow> gfile list \<Rightarrow> world \<Rightarrow> nat \<Rightarrow> error option \<times> world" where
  "transferFilesB env totalFiles [] w transferredCount = (None, w)"
| "transferFilesB env totalFiles (file # rest) w transferredCount =
     (case download file 0 of
        DlThrows e \<Rightarrow> (Some e, emit (CallDownload (name file) 0) w)
      | DlBuffer buf \<Rightarrow>
          (case s3Put env (uploadParamsB file buf) (emit (CallDownload (name file) 0) w) of
             (Some e, w1) \<Rightarrow> (Some e, w1)
           | (None, w1) \<Rightarrow>
               transferFilesB env totalFiles rest
                 (emit (LogTransferred (transferredCount + 1) totalFiles (name file)) w1)
                 (transferredCount + 1)))"

definition processFolderB ::
  "config \<Rightarrow> env \<Rightarrow> nat \<Rightarrow> string option \<Rightarrow> world \<Rightarrow> nat \<Rightarrow> (error + nat) \<times> world" where
  "processFolderB cfg env totalFoldersToMigrate folderName w migratedFoldersCount =
     (let w1 = emit (CallList (presenceListParams cfg folderName))
                 (emit (LogStartFolder folderName) w)
      in case listObjectsV2 env (bucket w) (presenceListParams cfg folderName) of
           Inl e \<Rightarrow> (Inl e, w1)
         | Inr listResponse \<Rightarrow>
             (if (case Contents listResponse of None \<Rightarrow> False | Some items \<Rightarrow> length items > 0)
              then (Inr (migratedFoldersCount + 1),
                    emit (logMigrated (migratedFoldersCount + 1) totalFoldersToMigrate)
                      (emit (LogAlreadyExists folderName) w1))
              else
                (let w2 = emit (CallGetFiles (folderOptions cfg folderName))
                            (emit (LogNotFoundInS3 folderName) w1)
                 in case getFiles env (folderOptions cfg folderName) of
                      Inl e \<Rightarrow> (Inl e, w2)
                    | Inr r \<Rightarrow>
                        (if length (fst r) = 0
                         then (Inr (migratedFoldersCount + 1),
                               emit (logMigrated (migratedFoldersCount + 1) totalFoldersToMigrate)
                                 (emit LogFolderEmpty
                                   (emit (LogFoundToTransfer (length (fst r))) w2)))
                         else
                           (case transferFilesB env (length (fst r)) (fst r)
                                   (emit (LogFoundToTransfer (length (fst r))) w2) 0 of
                              (Some e, w3) \<Rightarrow> (Inl e, w3)
                            | (None, w3) \<Rightarrow>
                                (Inr (migratedFoldersCount + 1),
                                 emit (logMigrated (migratedFoldersCount + 1) totalFoldersToMigrate)
                                   (emit (LogFolderComplete folderName) w3)))))))"

fun migrateFoldersB ::
  "config \<Rightarrow> env \<Rightarrow> nat \<Rightarrow> string option list \<Rightarrow> world \<Rightarrow> nat \<Rightarrow> (error + nat) \<times> world" where
  "migrateFoldersB cfg env totalFolders [] w migratedFoldersCount = (Inr migratedFoldersCount, w)"
| "migrateFoldersB cfg env totalFolders (folderName # rest) w migratedFoldersCount =
     (case processFolderB cfg env totalFolders folderName w migratedFoldersCount of
        (Inl e, w1) \<Rightarrow> (Inl e, w1)
      | (Inr m, w1) \<Rightarrow> migrateFoldersB cfg env totalFolders rest w1 m)"

definition findAndProcessRecentFoldersB ::
  "nat \<Rightarrow> config \<Rightarrow> env \<Rightarrow> world \<Rightarrow> (promise \<times> world) option" where
  "findAndProcessRecentFoldersB fuel cfg env w =
     (case scanPhase fuel cfg env w of
        None \<Rightarrow> None
      | Some (Inl e, w1) \<Rightarrow> Some (Fulfilled, emit (LogOverallError e) w1)
      | Some (Inr finalFolders, w1) \<Rightarrow>
          (case migrateFoldersB cfg env (length finalFolders) finalFolders w1 0 of
             (Inl e, w2) \<Rightarrow> Some (Fulfilled, emit (LogOverallError e) w2)
           | (Inr m, w2) \<Rightarrow> Some (Fulfilled, emit LogFinished w2)))"

section \<open>Observations on a run\<close>

text \<open>How often a key was sent to PutObject, downloaded, and reported as skipped.\<close>

fun isPutOf :: "string \<Rightarrow> event \<Rightarrow> bool" where
  "isPutOf k (CallPut cmd) = (Key cmd = k)"
| "isPutOf k e = False"

fun isDownloadOf :: "string \<Rightarrow> event \<Rightarrow> bool" where
  "isDownloadOf k (CallDownload k' i) = (k' = k)"
| "isDownloadOf k e = False"

definition putCalls :: "string \<Rightarrow> event list \<Rightarrow> nat" where
  "putCalls k tr = length (filter (isPutOf k) tr)"

definition downloadCalls :: "string \<Rightarrow> event list \<Rightarrow> nat" where
  "downloadCalls k tr = length (filter (isDownloadOf k) tr)"

definition skipLogs :: "string \<Rightarrow> event list \<Rightarrow> nat" where
  "skipLogs k tr = length (filter (\<lambda>e. e = LogSkipping k) tr)"

text \<open>An attempt that ends in the \<^verbatim>\<open>catch\<close> block: a throw, or a falsy buffer.\<close>

fun dlFails :: "dl_outcome \<Rightarrow> bool" where
  "dlFails (DlThrows e) = True"
| "dlFails (DlBuffer None) = True"
| "dlFails (DlBuffer (Some b)) = False"

text \<open>
  The retry loop in closed form, for the proofs: the value caught, the events of a failed
  attempt, and the outcome and the events of the three attempts together.
\<close>

fun failureOf :: "dl_outcome \<Rightarrow> error" where
  "failureOf (DlThrows e) = e"
| "failureOf (DlBuffer b) = Error ''Downloaded buffer is null or undefined.''"

definition retryEvents :: "gfile \<Rightarrow> nat \<Rightarrow> event list" where
  "retryEvents g i =
     [CallDownload (name g) i, LogRetrying (name g) (i + 1),
      LogDownloadFailed (failureOf (download g i)), Wait 1000]"

fun bufferOf :: "dl_outcome \<Rightarrow> string option" where
  "bufferOf (DlThrows e) = None"
| "bufferOf (DlBuffer b) = b"

definition downloadResult :: "gfile \<Rightarrow> string option" where
  "downloadResult g =
     (if \<not> dlFails (download g 0) then bufferOf (download g 0)
      else if \<not> dlFails (download g 1) then bufferOf (download g 1)
      else if \<not> dlFails (download g 2) then bufferOf (download g 2)
      else None)"

definition downloadEvents :: "gfile \<Rightarrow> event list" where
  "downloadEvents g =
     (if \<not> dlFails (download g 0) then [CallDownload (name g) 0]
      else retryEvents g 0 @
        (if \<not> dlFails (download g 1) then [CallDownload (name g) 1]
         else retryEvents g 1 @
           (if \<not> dlFails (download g 2) then [CallDownload (name g) 2]
            else retryEvents g 2)))"

definition emits :: "event list \<Rightarrow> world \<Rightarrow> world" where
  "emits evs w = w\<lparr>trace := trace w @ evs\<rparr>"

text \<open>The events one folder round may produce; listings must carry the prefix \<open>p\<close>.\<close>

fun folderEvent :: "string \<Rightarrow> event \<Rightarrow> bool" where
  "folderEvent p (CallList r) = (Prefix r = p)"
| "folderEvent p (CallGetFiles opts) = (prefix opts = p)"
| "folderEvent p (LogGettingList s) = False"
| "folderEvent p (LogSearching t) = False"
| "folderEvent p LogNoFilesFound = False"
| "folderEvent p (LogRequest a b c d) = False"
| "folderEvent p LogNoNewFolders = False"
| "folderEvent p (LogScanComplete n) = False"
| "folderEvent p (LogAllNewFolders fs) = False"
| "folderEvent p LogStartingMigration = False"
| "folderEvent p LogFinished = False"
| "folderEvent p (LogOverallError e) = False"
| "folderEvent p e = True"

text \<open>The recent-folder component of the loop body, on its own.\<close>

definition recentStep :: "config \<Rightarrow> string option list \<Rightarrow> gfile \<Rightarrow> string option list" where
  "recentStep cfg r file =
     (if fileNameOf (name file) = FOLDER_DATE_CHECK_FILE cfg \<and> isRecent cfg file
      then set_add (folderNameOf (name file)) r else r)"

section \<open>Models of the two services\<close>

text \<open>
  A source that hands out a finite stream of records in the given pages: the token of
  page \<open>k > 0\<close> is \<open>k\<close> letters, the last page carries no token.
\<close>

definition tokenOf :: "nat \<Rightarrow> string option" where
  "tokenOf k = (if k = 0 then None else Some (replicate k CHR ''p''))"

definition servePages ::
  "gfile list list \<Rightarrow> getfiles_options \<Rightarrow> error + (gfile list \<times> string option)" where
  "servePages pages opts =
     (let k = (case pageToken opts of None \<Rightarrow> 0 | Some t \<Rightarrow> length t)
      in Inr (if k < length pages then pages ! k else [],
              if Suc k < length pages then tokenOf (Suc k) else None))"

text \<open>A source that answers every listing from one list of objects, filtered by prefix.\<close>

definition startsWith :: "string \<Rightarrow> string \<Rightarrow> bool" where
  "startsWith s p = (take (length p) s = p)"

definition serveObjects ::
  "gfile list \<Rightarrow> getfiles_options \<Rightarrow> error + (gfile list \<times> string option)" where
  "serveObjects objs opts = Inr (filter (\<lambda>f. startsWith (name f) (prefix opts)) objs, None)"

text \<open>
  The destination's ListObjectsV2 over the bucket contents: the keys under the prefix,
  after the continuation token if one is sent, at most \<open>cap\<close> of them per response
  (and at most \<open>MaxKeys\<close>); a truncated response carries the token to continue with.
  \<open>Contents\<close> is absent when no key is returned. The service's \<open>cap\<close> is 1000.
\<close>

definition s3ListObjectsV2 ::
  "nat \<Rightarrow> put_command list \<Rightarrow> list_request \<Rightarrow> error + list_response" where
  "s3ListObjectsV2 cap b req =
     (let keys = filter (\<lambda>k. startsWith k (Prefix req)) (map Key b);
          rest = (case ContinuationToken req of None \<Rightarrow> keys
                  | Some t \<Rightarrow> drop 1 (dropWhile (\<lambda>k. k \<noteq> t) keys));
          page = take (case MaxKeys req of None \<Rightarrow> cap | Some m \<Rightarrow> min m cap) rest
      in Inr \<lparr>Contents = (if page = [] then None else Some (map Some page)),
              NextContinuationToken =
                (if page \<noteq> [] \<and> length page < length rest then Some (last page) else None)\<rparr>)"

text \<open>What one task adds to the trace, and whether it stores its object.\<close>

definition taskEvents :: "env \<Rightarrow> nat \<Rightarrow> gfile \<Rightarrow> nat \<Rightarrow> event list" where
  "taskEvents env totalFiles g c =
     downloadEvents g @
     (case downloadResult g of
        None \<Rightarrow> [LogSkipping (name g)]
      | Some b \<Rightarrow>
          (case putObject env (uploadParams g b) of
             Some e \<Rightarrow> [CallPut (uploadParams g b)]
           | None \<Rightarrow> [CallPut (uploadParams g b), LogTransferred (c + 1) totalFiles (name g)]))"

definition uploaded :: "env \<Rightarrow> gfile \<Rightarrow> bool" where
  "uploaded env g =
     (case downloadResult g of None \<Rightarrow> False
      | Some b \<Rightarrow> putObject env (uploadParams g b) = None)"

text \<open>The PutObject commands of a trace, and the folders whose round was started.\<close>

fun putsOf :: "event list \<Rightarrow> put_command list" where
  "putsOf [] = []"
| "putsOf (CallPut cmd # es) = cmd # putsOf es"
| "putsOf (e # es) = putsOf es"

fun folderStarts :: "event list \<Rightarrow> string option list" where
  "folderStarts [] = []"
| "folderStarts (LogStartFolder fo # es) = fo # folderStarts es"
| "folderStarts (e # es) = folderStarts es"


fun dlThrows :: "dl_outcome \<Rightarrow> bool" where
  "dlThrows (DlThrows e) = True"
| "dlThrows (DlBuffer b) = False"

text \<open>A download outcome with the falsy buffer replaced by the throw of the script's own
  error for it.\<close>

fun nullAsThrow :: "dl_outcome \<Rightarrow> dl_outcome" where
  "nullAsThrow (DlBuffer None) = DlThrows (Error ''Downloaded buffer is null or undefined.'')"
| "nullAsThrow d = d"

text \<open>The upload variant B makes for a file whose download returns.\<close>

definition taskPutB :: "gfile \<Rightarrow> put_command" where
  "taskPutB g = uploadParamsB g (bufferOf (download g 0))"

subsection \<open>Migrated folders, closing lines and listings that throw\<close>

text \<open>
  The lines that report a folder as migrated (lines 185, 243 and 244 of the script), and
  how many of them a trace holds.
\<close>

fun migratedLine :: "event \<Rightarrow> bool" where
  "migratedLine (LogFolderComplete fo) = True"
| "migratedLine (LogFoldersMigrated a b c) = True"
| "migratedLine e = False"

definition migratedLines :: "event list \<Rightarrow> nat" where
  "migratedLines tr = length (filter migratedLine tr)"


text \<open>
  The bucket after the events of a trace, replayed from the PutObject calls that did not
  throw; the error a listing call of the trace throws, if it does, against the bucket as
  it is at that moment; and the first event of a trace that throws in this way, with
  what follows it.
\<close>

definition bucketStep :: "env \<Rightarrow> put_command list \<Rightarrow> event \<Rightarrow> put_command list" where
  "bucketStep env b ev =
     (case ev of
        CallPut cmd \<Rightarrow> (case putObject env cmd of None \<Rightarrow> putInto cmd b | Some e \<Rightarrow> b)
      | _ \<Rightarrow> b)"

definition bucketAfter :: "env \<Rightarrow> put_command list \<Rightarrow> event list \<Rightarrow> put_command list" where
  "bucketAfter env b evs = foldl (bucketStep env) b evs"







section \<open>Sample inputs\<close>

text \<open>The cutoff of the script, 2025-03-10T00:00:00Z, in milliseconds.\<close>

definition exCfg :: config where
  "exCfg = \<lparr>GCP_INTERNAL_PATH = ''root/'', FOLDER_DATE_CHECK_FILE = ''marker.json'',
            MINIMUM_DATE = 1741564800000, BATCH_SIZE = 1000\<rparr>"

definition okDownload :: "nat \<Rightarrow> dl_outcome" where
  "okDownload i = DlBuffer (Some ''data'')"

definition flakyDownload :: "nat \<Rightarrow> dl_outcome" where
  "flakyDownload i = (if i < 2 then DlThrows (Error ''ECONNRESET'') else DlBuffer (Some ''data''))"

definition deadDownload :: "nat \<Rightarrow> dl_outcome" where
  "deadDownload i = DlThrows (Error ''ECONNRESET'')"

definition nullDownload :: "nat \<Rightarrow> dl_outcome" where
  "nullDownload i = DlBuffer None"

definition emptyDownload :: "nat \<Rightarrow> dl_outcome" where
  "emptyDownload i = DlBuffer (Some [])"

definition mkFile :: "string \<Rightarrow> int \<Rightarrow> (nat \<Rightarrow> dl_outcome) \<Rightarrow> gfile" where
  "mkFile k t d = \<lparr>name = k, timeCreated = Some t, contentType = Some ''application/json'',
                   download = d\<rparr>"

definition emptyWorld :: world where
  "emptyWorld = \<lparr>bucket = [], trace = []\<rparr>"

text \<open>
  Two pages: folder f1 with a marker of 2025-04-01, folder f2 with a marker of 2025-01-01
  and a newer data file.
\<close>

definition exPages :: "gfile list list" where
  "exPages =
     [[mkFile ''root/f1/marker.json'' 1743465600000 okDownload,
       mkFile ''root/f1/a.bin'' 1743465600000 okDownload],
      [mkFile ''root/f2/marker.json'' 1735689600000 okDownload,
       mkFile ''root/f2/b.bin'' 1743465600000 okDownload]]"

definition pagesEnv :: "gfile list list \<Rightarrow> env" where
  "pagesEnv pages =
     \<lparr>getFiles = servePages pages, listObjectsV2 = s3ListObjectsV2 1000,
      putObject = (\<lambda>cmd. None)\<rparr>"

definition objectsEnv :: "nat \<Rightarrow> gfile list \<Rightarrow> (put_command \<Rightarrow> error option) \<Rightarrow> env" where
  "objectsEnv cap objs put =
     \<lparr>getFiles = serveObjects objs, listObjectsV2 = s3ListObjectsV2 cap, putObject = put\<rparr>"

text \<open>A marker at the bucket root and one behind an empty segment, both dated at the cutoff.\<close>

definition folderlessFiles :: "gfile list" where
  "folderlessFiles =
     [mkFile ''marker.json'' 1741564800000 okDownload,
      mkFile ''/marker.json'' 1741564800000 okDownload]"

text \<open>A pool of three tasks: two failures then success, three failures, plain success.\<close>

definition exPool :: "gfile list" where
  "exPool =
     [mkFile ''root/f1/a.bin'' 0 flakyDownload,
      mkFile ''root/f1/b.bin'' 0 deadDownload,
      mkFile ''root/f1/c.bin'' 0 okDownload]"

definition noPutError :: "put_command \<Rightarrow> error option" where
  "noPutError cmd = None"

definition failPut :: "string \<Rightarrow> put_command \<Rightarrow> error option" where
  "failPut k cmd = (if Key cmd = k then Some (Error ''AccessDenied'') else None)"

text \<open>Two recent folders; a source whose listing throws; a marker one level deeper.\<close>

definition twoFolders :: "gfile list" where
  "twoFolders =
     [mkFile ''root/f1/marker.json'' 1743465600000 okDownload,
      mkFile ''root/f1/a.bin'' 1743465600000 okDownload,
      mkFile ''root/f2/marker.json'' 1743465600000 okDownload]"


definition nestedMarker :: gfile where
  "nestedMarker = mkFile ''root/2024/f1/marker.json'' 1743465600000 okDownload"


text \<open>A bucket that holds one object under folder f1 from an earlier run.\<close>

definition leftoverWorld :: world where
  "leftoverWorld =
     \<lparr>bucket = [\<lparr>Key = ''root/f1/old.bin'', Body = Some ''x'', ContentType = None\<rparr>], trace = []\<rparr>"

text \<open>
  A folder of 1001 objects: the marker and 1000 data files; the source that serves it, with
  a destination that returns at most 1000 keys per response; a bucket that holds them all.
\<close>

definition manyObjects :: "nat \<Rightarrow> gfile list" where
  "manyObjects n =
     map (\<lambda>i. mkFile (''root/f1/'' @ replicate (Suc i) CHR ''x'') 1743465600000 okDownload) [0..<n]"

definition bigSource :: "gfile list" where
  "bigSource = mkFile ''root/f1/marker.json'' 1743465600000 okDownload # manyObjects 1000"

definition bigEnv :: env where
  "bigEnv = objectsEnv 1000 bigSource noPutError"

definition fullWorld :: world where
  "fullWorld = \<lparr>bucket = map (\<lambda>g. uploadParams g ''data'') bigSource, trace = []\<rparr>"


text \<open>A folder with its marker and a marker at the bucket root, both of 2025-04-01.\<close>

definition rootedFiles :: "gfile list" where
  "rootedFiles =
     [mkFile ''f1/marker.json'' 1743465600000 okDownload,
      mkFile ''marker.json'' 1743465600000 okDownload]"

section \<open>Basic facts\<close>

lemma trace_emit [simp]: "trace (emit e w) = trace w @ [e]"
  by (simp add: emit_def)

lemma bucket_emit [simp]: "bucket (emit e w) = bucket w"
  by (simp add: emit_def)

lemma trace_emits [simp]: "trace (emits evs w) = trace w @ evs"
  by (simp add: emits_def)

lemma bucket_emits [simp]: "bucket (emits evs w) = bucket w"
  by (simp add: emits_def)

lemma emit_emits: "emit e w = emits [e] w"
  by (simp add: emit_def emits_def)

lemma emits_emits: "emits a (emits b w) = emits (b @ a) w"
  by (simp add: emits_def)

lemma emits_Nil [simp]: "emits [] w = w"
  by (simp add: emits_def)

lemma putCalls_Nil [simp]: "putCalls k [] = 0"
  by (simp add: putCalls_def)

lemma skipLogs_Nil [simp]: "skipLogs k [] = 0"
  by (simp add: skipLogs_def)

lemma downloadCalls_Nil [simp]: "downloadCalls k [] = 0"
  by (simp add: downloadCalls_def)

lemma putCalls_Cons [simp]:
  "putCalls k (e # es) = (if isPutOf k e then 1 else 0) + putCalls k es"
  by (simp add: putCalls_def)

lemma skipLogs_Cons [simp]:
  "skipLogs k (e # es) = (if e = LogSkipping k then 1 else 0) + skipLogs k es"
  by (simp add: skipLogs_def)

lemma downloadCalls_Cons [simp]:
  "downloadCalls k (e # es) = (if isDownloadOf k e then 1 else 0) + downloadCalls k es"
  by (simp add: downloadCalls_def)

lemma putCalls_append [simp]: "putCalls k (xs @ ys) = putCalls k xs + putCalls k ys"
  by (simp add: putCalls_def)

lemma skipLogs_append [simp]: "skipLogs k (xs @ ys) = skipLogs k xs + skipLogs k ys"
  by (simp add: skipLogs_def)

lemma downloadCalls_append [simp]:
  "downloadCalls k (xs @ ys) = downloadCalls k xs + downloadCalls k ys"
  by (simp add: downloadCalls_def)

lemma set_set_add: "set (set_add x xs) = insert x (set xs)"
  by (auto simp: set_add_def)

subsection \<open>Path segments\<close>

lemma split_nonempty: "split c s \<noteq> []"
  by (induction s) (auto split: list.splits)

lemma split_append: "split c (a @ c # b) = split c a @ split c b"
proof (induction a)
  case Nil
  then show ?case by simp
next
  case (Cons x a)
  then show ?case
    using split_nonempty [of c a] by (cases "split c a") auto
qed

lemma split_no_sep: "c \<notin> set s \<Longrightarrow> split c s = [s]"
  by (induction s) auto

lemma folderNameOf_nested:
  assumes "CHR ''/'' \<notin> set seg" "CHR ''/'' \<notin> set leaf"
  shows "folderNameOf (pre @ CHR ''/'' # seg @ CHR ''/'' # leaf) = Some seg"
proof -
  have "split CHR ''/'' (pre @ CHR ''/'' # seg @ CHR ''/'' # leaf)
        = split CHR ''/'' pre @ [seg, leaf]"
    using assms by (simp add: split_append split_no_sep)
  then show ?thesis
    by (simp add: folderNameOf_def Let_def nth_append)
qed

lemma folderNameOf_top:
  assumes "CHR ''/'' \<notin> set seg" "CHR ''/'' \<notin> set leaf"
  shows "folderNameOf (seg @ CHR ''/'' # leaf) = Some seg"
  using assms by (simp add: folderNameOf_def Let_def split_append split_no_sep)

lemma fileNameOf_leaf:
  assumes "CHR ''/'' \<notin> set leaf"
  shows "fileNameOf (pre @ CHR ''/'' # leaf) = leaf"
  using assms by (simp add: fileNameOf_def split_append split_no_sep)

subsection \<open>The scan\<close>

lemma classifyFile_recent:
  "recentFoldersFound (fst (classifyFile cfg acc g)) =
     recentStep cfg (recentFoldersFound (fst acc)) g"
  by (simp add: classifyFile_def recentStep_def Let_def)

lemma foldl_classify_recent:
  "recentFoldersFound (fst (foldl (classifyFile cfg) acc files)) =
     foldl (recentStep cfg) (recentFoldersFound (fst acc)) files"
  by (induction files arbitrary: acc) (simp_all add: classifyFile_recent)

lemma classifyFiles_recent:
  "recentFoldersFound (fst (classifyFiles cfg st files)) =
     foldl (recentStep cfg) (recentFoldersFound st) files"
  by (simp add: classifyFiles_def foldl_classify_recent)

lemma set_foldl_recentStep:
  "set (foldl (recentStep cfg) r files) =
     set r \<union> {folderNameOf (name f) | f. f \<in> set files \<and>
                fileNameOf (name f) = FOLDER_DATE_CHECK_FILE cfg \<and> isRecent cfg f}"
  by (induction files arbitrary: r) (auto simp: recentStep_def set_set_add)

lemma servePages_at:
  "servePages pages (scanOptions cfg (tokenOf k)) =
     Inr (if k < length pages then pages ! k else [],
          if Suc k < length pages then tokenOf (Suc k) else None)"
  by (auto simp: servePages_def scanOptions_def tokenOf_def)

lemma truthy_tokenOf: "truthy (tokenOf (Suc k))"
  by (simp add: tokenOf_def)

text \<open>Over a paged source the loop ends within one request per page (one for no page)
  and has folded every record of the remaining pages into the recent-folder set.\<close>

lemma scanLoop_pages:
  assumes "\<forall>p\<in>set pages. p \<noteq> []" "getFiles env = servePages pages"
  shows "k \<le> length pages \<Longrightarrow> length pages - k < n \<Longrightarrow>
         \<exists>st' w'. scanLoop n cfg env (tokenOf k) st w = Some (Inr st', w') \<and>
           recentFoldersFound st' =
             foldl (recentStep cfg) (recentFoldersFound st) (concat (drop k pages))"
proof (induction n arbitrary: k st w)
  case 0
  then show ?case by simp
next
  case (Suc n)
  show ?case
  proof (cases "k < length pages")
    case False
    then show ?thesis using Suc.prems assms(2)
      by (simp add: servePages_at Let_def)
  next
    case True
    then have ne: "pages ! k \<noteq> []" using assms(1) by simp
    have dr: "drop k pages = pages ! k # drop (Suc k) pages"
      using True by (simp add: Cons_nth_drop_Suc)
    show ?thesis
    proof (cases "Suc k < length pages")
      case True
      note lt = this
      let ?st2 = "st\<lparr>requestCount := requestCount st + 1,
                     totalFilesCount := totalFilesCount st + length (pages ! k)\<rparr>"
      let ?c = "classifyFiles cfg ?st2 (pages ! k)"
      have "Suc k \<le> length pages" "length pages - Suc k < n"
        using lt Suc.prems by auto
      from Suc.IH [OF this] obtain st' w' where
        h: "scanLoop n cfg env (tokenOf (Suc k)) (fst ?c)
              (emit (LogRequest (requestCount (fst ?c)) (totalFilesCount (fst ?c))
                       (length (allFoldersFoundInTotal (fst ?c))) (snd ?c))
                 (emit (CallGetFiles (scanOptions cfg (tokenOf k))) w)) = Some (Inr st', w')"
        and r: "recentFoldersFound st' =
              foldl (recentStep cfg) (recentFoldersFound (fst ?c)) (concat (drop (Suc k) pages))"
        by blast
      have "recentFoldersFound (fst ?c) = foldl (recentStep cfg) (recentFoldersFound st) (pages ! k)"
        by (simp add: classifyFiles_recent)
      with r have "recentFoldersFound st' =
          foldl (recentStep cfg) (recentFoldersFound st) (concat (drop k pages))"
        by (simp add: dr)
      then show ?thesis using h lt ne \<open>k < length pages\<close> assms(2)
        by (simp add: servePages_at Let_def truthy_tokenOf)
    next
      case False
      then have "drop (Suc k) pages = []" by simp
      then show ?thesis using False ne \<open>k < length pages\<close> assms(2) dr
        by (simp add: servePages_at Let_def classifyFiles_recent)
    qed
  qed
qed

lemmas sample_defs =
  exPages_def pagesEnv_def exCfg_def emptyWorld_def initialScan_def servePages_def
  scanOptions_def tokenOf_def classifyFiles_def classifyFile_def Let_def mkFile_def
  folderNameOf_def fileNameOf_def isRecent_def set_add_def

subsection \<open>The retry loop and the pool\<close>

lemma downloadAttempts_done: "downloadAttempts g 3 w = (None, w)"
  by (simp add: downloadAttempts.simps [of g 3])

lemma downloadAttempts_fail:
  "i < 3 \<Longrightarrow> dlFails (download g i) \<Longrightarrow>
     downloadAttempts g i w = downloadAttempts g (i + 1) (emits (retryEvents g i) w)"
  by (cases "download g i" rule: dlFails.cases)
     (simp_all add: downloadAttempts.simps [of g i] retryEvents_def emit_emits emits_emits)

lemma downloadAttempts_ok:
  "i < 3 \<Longrightarrow> \<not> dlFails (download g i) \<Longrightarrow>
     downloadAttempts g i w = (bufferOf (download g i), emits [CallDownload (name g) i] w)"
  by (cases "download g i" rule: dlFails.cases)
     (simp_all add: downloadAttempts.simps [of g i] emit_emits)

lemma downloadAttempts_closed:
  "downloadAttempts g 0 w = (downloadResult g, emits (downloadEvents g) w)"
proof -
  have two: "downloadAttempts g 2 w' =
      (if \<not> dlFails (download g 2) then (bufferOf (download g 2), emits [CallDownload (name g) 2] w')
       else (None, emits (retryEvents g 2) w'))" for w'
    using downloadAttempts_fail [of 2 g w'] downloadAttempts_ok [of 2 g w']
    by (simp add: downloadAttempts_done)
  have one: "downloadAttempts g (Suc 0) w' =
      (if \<not> dlFails (download g (Suc 0))
       then (bufferOf (download g (Suc 0)), emits [CallDownload (name g) (Suc 0)] w')
       else downloadAttempts g 2 (emits (retryEvents g (Suc 0)) w'))" for w'
    using downloadAttempts_fail [of "Suc 0" g w'] downloadAttempts_ok [of "Suc 0" g w']
    by (simp add: numeral_2_eq_2)
  have zero: "downloadAttempts g 0 w =
      (if \<not> dlFails (download g 0) then (bufferOf (download g 0), emits [CallDownload (name g) 0] w)
       else downloadAttempts g (Suc 0) (emits (retryEvents g 0) w))"
    using downloadAttempts_fail [of 0 g w] downloadAttempts_ok [of 0 g w]
    by simp
  show ?thesis
    by (simp add: zero one two downloadResult_def downloadEvents_def emits_emits)
qed

lemma downloadResult_None:
  "(downloadResult g = None) =
     (dlFails (download g 0) \<and> dlFails (download g 1) \<and> dlFails (download g 2))"
proof -
  have "\<not> dlFails d \<Longrightarrow> bufferOf d \<noteq> None" for d
    by (cases d rule: dlFails.cases) auto
  then show ?thesis by (auto simp: downloadResult_def)
qed

lemma Key_uploadParams [simp]: "Key (uploadParams g b) = name g"
  by (simp add: uploadParams_def)

lemma putCalls_downloadEvents [simp]: "putCalls k (downloadEvents g) = 0"
  by (simp add: downloadEvents_def retryEvents_def)

lemma skipLogs_downloadEvents [simp]: "skipLogs k (downloadEvents g) = 0"
  by (simp add: downloadEvents_def retryEvents_def)

lemma s3Put_closed:
  "s3Put env cmd w =
     (case putObject env cmd of
        Some e \<Rightarrow> (Some e, emits [CallPut cmd] w)
      | None \<Rightarrow> (None, (emits [CallPut cmd] w)\<lparr>bucket := putInto cmd (bucket w)\<rparr>))"
  by (simp add: s3Put_def Let_def emit_emits split: option.splits)

lemma transferTask_trace:
  "transferTask env tf g w c = (r, w', c') \<Longrightarrow> trace w' = trace w @ taskEvents env tf g c"
  by (auto simp: transferTask_def downloadAttempts_closed s3Put_closed taskEvents_def emit_emits
           split: option.splits)

lemma transferTask_rejects:
  "transferTask env tf g w c = (r, w', c') \<Longrightarrow>
     r = (case downloadResult g of None \<Rightarrow> None | Some b \<Rightarrow> putObject env (uploadParams g b))"
  by (auto simp: transferTask_def downloadAttempts_closed s3Put_closed split: option.splits)

lemma transferTask_bucket:
  "transferTask env tf g w c = (r, w', c') \<Longrightarrow>
     bucket w' = (if uploaded env g
                  then putInto (uploadParams g (the (downloadResult g))) (bucket w)
                  else bucket w)"
  by (auto simp: transferTask_def downloadAttempts_closed s3Put_closed uploaded_def
           split: option.splits)

lemma keys_putInto: "Key ` set (putInto cmd b) = insert (Key cmd) (Key ` set b)"
  by (auto simp: putInto_def)

lemma transferTask_bucket_keys:
  "transferTask env tf g w c = (r, w', c') \<Longrightarrow>
     Key ` set (bucket w') = Key ` set (bucket w) \<union> (if uploaded env g then {name g} else {})"
  by (simp add: transferTask_bucket keys_putInto)

lemma putCalls_taskEvents:
  "putCalls k (taskEvents env tf g c) = (if name g = k \<and> downloadResult g \<noteq> None then 1 else 0)"
  by (auto simp: taskEvents_def split: option.splits)

lemma skipLogs_taskEvents:
  "skipLogs k (taskEvents env tf g c) = (if name g = k \<and> downloadResult g = None then 1 else 0)"
  by (auto simp: taskEvents_def split: option.splits)

lemma runPool_step:
  assumes "runPool env tf (g # files) rej w c = (rej', w', c')"
  obtains r w1 c1 where "transferTask env tf g w c = (r, w1, c1)"
    and "runPool env tf files (case rej of None \<Rightarrow> r | Some e \<Rightarrow> Some e) w1 c1 = (rej', w', c')"
  using assms by (cases "transferTask env tf g w c") auto

lemma runPool_putCalls:
  "runPool env tf files rej w c = (rej', w', c') \<Longrightarrow>
     putCalls k (trace w') =
       putCalls k (trace w) + length (filter (\<lambda>g. name g = k \<and> downloadResult g \<noteq> None) files)"
proof (induction files arbitrary: rej w c)
  case Nil
  then show ?case by simp
next
  case (Cons g files)
  from Cons.prems obtain r w1 c1 where t: "transferTask env tf g w c = (r, w1, c1)"
    and rest: "runPool env tf files (case rej of None \<Rightarrow> r | Some e \<Rightarrow> Some e) w1 c1
      = (rej', w', c')" by (rule runPool_step)
  from Cons.IH [OF rest] show ?case
    using transferTask_trace [OF t] by (simp add: putCalls_taskEvents)
qed

lemma runPool_skipLogs:
  "runPool env tf files rej w c = (rej', w', c') \<Longrightarrow>
     skipLogs k (trace w') =
       skipLogs k (trace w) + length (filter (\<lambda>g. name g = k \<and> downloadResult g = None) files)"
proof (induction files arbitrary: rej w c)
  case Nil
  then show ?case by simp
next
  case (Cons g files)
  from Cons.prems obtain r w1 c1 where t: "transferTask env tf g w c = (r, w1, c1)"
    and rest: "runPool env tf files (case rej of None \<Rightarrow> r | Some e \<Rightarrow> Some e) w1 c1
      = (rej', w', c')" by (rule runPool_step)
  from Cons.IH [OF rest] show ?case
    using transferTask_trace [OF t] by (simp add: skipLogs_taskEvents)
qed

lemma runPool_rejects:
  "runPool env tf files rej w c = (rej', w', c') \<Longrightarrow>
     (rej' = None) =
       (rej = None \<and> (\<forall>g\<in>set files. \<forall>b. downloadResult g = Some b \<longrightarrow>
                          putObject env (uploadParams g b) = None))"
proof (induction files arbitrary: rej w c)
  case Nil
  then show ?case by simp
next
  case (Cons g files)
  from Cons.prems obtain r w1 c1 where t: "transferTask env tf g w c = (r, w1, c1)"
    and rest: "runPool env tf files (case rej of None \<Rightarrow> r | Some e \<Rightarrow> Some e) w1 c1
      = (rej', w', c')" by (rule runPool_step)
  from Cons.IH [OF rest] show ?case
    using transferTask_rejects [OF t] by (auto split: option.splits)
qed

lemma runPool_bucket_keys:
  "runPool env tf files rej w c = (rej', w', c') \<Longrightarrow>
     Key ` set (bucket w') = Key ` set (bucket w) \<union> name ` {g \<in> set files. uploaded env g}"
proof (induction files arbitrary: rej w c)
  case Nil
  then show ?case by simp
next
  case (Cons g files)
  from Cons.prems obtain r w1 c1 where t: "transferTask env tf g w c = (r, w1, c1)"
    and rest: "runPool env tf files (case rej of None \<Rightarrow> r | Some e \<Rightarrow> Some e) w1 c1
      = (rej', w', c')" by (rule runPool_step)
  from Cons.IH [OF rest] show ?case
    using transferTask_bucket_keys [OF t] by auto
qed

lemma filter_absent_name:
  "k \<notin> name ` set files \<Longrightarrow> filter (\<lambda>g. name g = k \<and> P g) files = []"
  by (induction files) auto

lemma filter_distinct_name:
  "distinct (map name files) \<Longrightarrow> f \<in> set files \<Longrightarrow>
     length (filter (\<lambda>g. name g = name f \<and> P g) files) = (if P f then 1 else 0)"
proof (induction files)
  case Nil
  then show ?case by simp
next
  case (Cons a files)
  show ?case
  proof (cases "a = f")
    case True
    then have "name f \<notin> name ` set files" using Cons.prems by auto
    then have "filter (\<lambda>g. name g = name f \<and> P g) files = []"
      by (rule filter_absent_name)
    then show ?thesis using True by simp
  next
    case False
    then have "f \<in> set files" using Cons.prems by auto
    moreover from this have "name a \<noteq> name f" using Cons.prems by force
    ultimately show ?thesis using Cons by simp
  qed
qed

lemma runPool_putCalls_distinct:
  assumes "runPool env tf files rej w c = (rej', w', c')"
    and "distinct (map name files)" and "g \<in> set files"
  shows "putCalls (name g) (trace w') =
           putCalls (name g) (trace w) + (if downloadResult g \<noteq> None then 1 else 0)"
  using runPool_putCalls [OF assms(1), of "name g"] filter_distinct_name [OF assms(2,3)]
  by simp

lemma runPool_skipLogs_distinct:
  assumes "runPool env tf files rej w c = (rej', w', c')"
    and "distinct (map name files)" and "g \<in> set files"
  shows "skipLogs (name g) (trace w') =
           skipLogs (name g) (trace w) + (if downloadResult g = None then 1 else 0)"
  using runPool_skipLogs [OF assms(1), of "name g"] filter_distinct_name [OF assms(2,3)]
  by simp

lemmas pool_defs = exPool_def mkFile_def flakyDownload_def deadDownload_def okDownload_def

subsection \<open>The folder round\<close>

lemma r2ListLoop_truncated:
  assumes "listObjectsV2 env (bucket w) (diffListParams cfg fo) = Inr resp"
    and "truthy (NextContinuationToken resp)"
  shows "r2ListLoop n cfg env fo acc w = None"
  using assms
proof (induction n arbitrary: acc w)
  case 0
  then show ?case by simp
next
  case (Suc n)
  have "listObjectsV2 env (bucket (emit (CallList (diffListParams cfg fo)) w))
          (diffListParams cfg fo) = Inr resp"
    using Suc.prems(1) by simp
  from Suc.IH [OF this Suc.prems(2)] show ?case
    using Suc.prems by (simp add: Let_def)
qed

lemma r2ListLoop_single:
  assumes "listObjectsV2 env (bucket w) (diffListParams cfg fo) = Inr resp"
    and "\<not> truthy (NextContinuationToken resp)"
  shows "r2ListLoop (Suc n) cfg env fo acc w =
           Some (Inr (case Contents resp of None \<Rightarrow> acc | Some items \<Rightarrow> addKeys acc items),
                 emits [CallList (diffListParams cfg fo)] w)"
  using assms by (simp add: Let_def emit_emits)


lemma r2ListLoop_events:
  "r2ListLoop n cfg env fo acc w = Some (r, w') \<Longrightarrow>
     bucket w' = bucket w \<and> trace w' = trace w @ [CallList (diffListParams cfg fo)]"
proof (cases n)
  case 0
  assume "r2ListLoop n cfg env fo acc w = Some (r, w')"
  with 0 show ?thesis by simp
next
  case (Suc m)
  assume run: "r2ListLoop n cfg env fo acc w = Some (r, w')"
  show ?thesis
  proof (cases "listObjectsV2 env (bucket w) (diffListParams cfg fo)")
    case (Inl e)
    with run Suc show ?thesis by (auto simp: Let_def)
  next
    case (Inr resp)
    show ?thesis
    proof (cases "truthy (NextContinuationToken resp)")
      case True
      from r2ListLoop_truncated [OF Inr True] run show ?thesis by simp
    next
      case False
      from r2ListLoop_single [OF Inr False] run Suc show ?thesis by auto
    qed
  qed
qed

lemma set_addKeys:
  "set (addKeys acc items) = set acc \<union> {k. Some k \<in> set items \<and> k \<noteq> []}"
  unfolding addKeys_def
  by (induction items arbitrary: acc) (auto simp: set_set_add split: option.splits)

lemma diffFolder_truncated:
  assumes "listObjectsV2 env (bucket w) (diffListParams cfg fo) = Inr resp"
    and "truthy (NextContinuationToken resp)"
  shows "diffFolder n cfg env fo w = None"
  by (simp add: diffFolder_def r2ListLoop_truncated [OF assms])

lemma diffFolder_events:
  assumes "diffFolder n cfg env fo w = Some (r, w')"
  shows "bucket w' = bucket w \<and>
         (\<exists>evs. trace w' = trace w @ evs \<and> list_all (folderEvent (folderPrefix cfg fo)) evs)"
proof -
  from assms obtain r1 w1 where l: "r2ListLoop n cfg env fo [] w = Some (r1, w1)"
    by (auto simp: diffFolder_def split: option.splits)
  from r2ListLoop_events [OF l] have
    w1: "bucket w1 = bucket w" "trace w1 = trace w @ [CallList (diffListParams cfg fo)]"
    by auto
  show ?thesis
    using assms l w1
    by (auto simp: diffFolder_def Let_def diffListParams_def folderOptions_def
             split: sum.splits)
qed

lemma folderEvent_taskEvents: "list_all (folderEvent p) (taskEvents env tf g c)"
  by (auto simp: taskEvents_def downloadEvents_def retryEvents_def split: option.splits)

lemma runPool_events:
  "runPool env tf files rej w c = (rej', w', c') \<Longrightarrow>
     \<exists>evs. trace w' = trace w @ evs \<and> list_all (folderEvent p) evs"
proof (induction files arbitrary: rej w c)
  case Nil
  then show ?case by simp
next
  case (Cons g files)
  from Cons.prems obtain r w1 c1 where t: "transferTask env tf g w c = (r, w1, c1)"
    and rest: "runPool env tf files (case rej of None \<Rightarrow> r | Some e \<Rightarrow> Some e) w1 c1
      = (rej', w', c')" by (rule runPool_step)
  from Cons.IH [OF rest] obtain evs where
    "trace w' = trace w1 @ evs" "list_all (folderEvent p) evs" by blast
  then show ?case
    using transferTask_trace [OF t] folderEvent_taskEvents [of p env tf g c] by simp
qed

lemma processFolderA_events:
  assumes "processFolderA n cfg env tot fo w m = Some (r, w')"
  shows "\<exists>evs. trace w' = trace w @ evs \<and> list_all (folderEvent (folderPrefix cfg fo)) evs"
proof -
  let ?w0 = "emit (LogStartFolder fo) w"
  from assms obtain r1 w1 where d: "diffFolder n cfg env fo ?w0 = Some (r1, w1)"
    by (auto simp: processFolderA_def split: option.splits)
  from diffFolder_events [OF d] obtain evs1 where
    e1: "trace w1 = trace w @ LogStartFolder fo # evs1"
        "list_all (folderEvent (folderPrefix cfg fo)) evs1"
    by auto
  show ?thesis
  proof (cases r1)
    case (Inl e)
    with assms d e1 show ?thesis by (auto simp: processFolderA_def)
  next
    case (Inr t)
    obtain r2 gcp todo where t: "t = (r2, gcp, todo)" by (cases t) auto
    show ?thesis
    proof (cases "length todo = 0")
      case True
      with assms d e1 Inr t show ?thesis
        by (auto simp: processFolderA_def logMigrated_def)
    next
      case False
      obtain rej w2 c where p: "runPool env (length todo) todo None w1 0 = (rej, w2, c)"
        by (cases "runPool env (length todo) todo None w1 0") auto
      from runPool_events [OF p, of "folderPrefix cfg fo"] obtain evs2 where
        e2: "trace w2 = trace w1 @ evs2" "list_all (folderEvent (folderPrefix cfg fo)) evs2"
        by blast
      with assms d e1 Inr t False p show ?thesis
        by (cases rej) (auto simp: processFolderA_def logMigrated_def)
    qed
  qed
qed

lemma folderNameOf_segment:
  assumes "CHR ''/'' \<notin> set seg" "CHR ''/'' \<notin> set leaf" "pre = [] \<or> last pre = CHR ''/''"
  shows "folderNameOf (pre @ seg @ ''/'' @ leaf) = Some seg"
proof (cases "pre = []")
  case True
  then show ?thesis using folderNameOf_top [OF assms(1,2)] by simp
next
  case False
  then obtain p where p: "pre = p @ ''/''" using assms(3)
    by (metis append_butlast_last_id)
  show ?thesis
    unfolding p using folderNameOf_nested [OF assms(1,2), of p] by simp
qed

lemma fileNameOf_segment:
  assumes "CHR ''/'' \<notin> set leaf"
  shows "fileNameOf (pre @ seg @ ''/'' @ leaf) = leaf"
  using fileNameOf_leaf [OF assms, of "pre @ seg"] by simp

lemma s3Put_events:
  "s3Put env cmd w = (r, w') \<Longrightarrow> trace w' = trace w @ [CallPut cmd]"
  by (auto simp: s3Put_closed split: option.splits)

lemma transferFilesB_events:
  "transferFilesB env tf files w c = (r, w') \<Longrightarrow>
     \<exists>evs. trace w' = trace w @ evs \<and> list_all (folderEvent p) evs"
proof (induction files arbitrary: w c)
  case Nil
  then show ?case by simp
next
  case (Cons g files)
  show ?case
  proof (cases "download g 0")
    case (DlThrows e)
    with Cons.prems show ?thesis by auto
  next
    case (DlBuffer buf)
    obtain r1 w1 where p: "s3Put env (uploadParamsB g buf) (emit (CallDownload (name g) 0) w) = (r1, w1)"
      by (cases "s3Put env (uploadParamsB g buf) (emit (CallDownload (name g) 0) w)") auto
    from s3Put_events [OF p] have t1: "trace w1 = trace w @ [CallDownload (name g) 0, CallPut (uploadParamsB g buf)]"
      by simp
    show ?thesis
    proof (cases r1)
      case (Some e)
      with Cons.prems DlBuffer p t1 show ?thesis by auto
    next
      case None
      with Cons.prems DlBuffer p have
        "transferFilesB env tf files (emit (LogTransferred (c + 1) tf (name g)) w1) (c + 1) = (r, w')"
        by simp
      from Cons.IH [OF this] t1 show ?thesis by auto
    qed
  qed
qed

lemma processFolderB_events:
  assumes "processFolderB cfg env tot fo w m = (r, w')"
  shows "\<exists>evs. trace w' = trace w @ evs \<and> list_all (folderEvent (folderPrefix cfg fo)) evs"
proof (cases "listObjectsV2 env (bucket w) (presenceListParams cfg fo)")
  case (Inl e)
  with assms show ?thesis
    by (auto simp: processFolderB_def Let_def presenceListParams_def)
next
  case (Inr resp)
  note resp = this
  show ?thesis
  proof (cases "case Contents resp of None \<Rightarrow> False | Some items \<Rightarrow> length items > 0")
    case True
    with assms resp show ?thesis
      by (auto simp: processFolderB_def Let_def presenceListParams_def logMigrated_def)
  next
    case False
    note absent = this
    show ?thesis
    proof (cases "getFiles env (folderOptions cfg fo)")
      case (Inl e)
      with assms resp absent show ?thesis
        by (auto simp: processFolderB_def Let_def presenceListParams_def folderOptions_def)
    next
      case (Inr gr)
      show ?thesis
      proof (cases "length (fst gr) = 0")
        case True
        with assms resp absent Inr show ?thesis
          by (auto simp: processFolderB_def Let_def presenceListParams_def folderOptions_def
                logMigrated_def)
      next
        case False
        let ?w2 = "emit (LogFoundToTransfer (length (fst gr)))
                     (emit (CallGetFiles (folderOptions cfg fo))
                       (emit (LogNotFoundInS3 fo)
                         (emit (CallList (presenceListParams cfg fo))
                           (emit (LogStartFolder fo) w))))"
        obtain r3 w3 where t: "transferFilesB env (length (fst gr)) (fst gr) ?w2 0 = (r3, w3)"
          by (cases "transferFilesB env (length (fst gr)) (fst gr) ?w2 0") auto
        from transferFilesB_events [OF t, of "folderPrefix cfg fo"] obtain evs where
          "trace w3 = trace ?w2 @ evs" "list_all (folderEvent (folderPrefix cfg fo)) evs"
          by blast
        with assms resp absent Inr False t show ?thesis
          by (cases r3)
             (auto simp: processFolderB_def Let_def presenceListParams_def folderOptions_def
                logMigrated_def)
      qed
    qed
  qed
qed

lemma putsOf_append [simp]: "putsOf (a @ b) = putsOf a @ putsOf b"
  by (induction a rule: putsOf.induct) auto

lemma transferFilesB_success:
  assumes "\<forall>g\<in>set files. \<not> dlThrows (download g 0) \<and> putObject env (taskPutB g) = None"
  shows "\<exists>w'. transferFilesB env tf files w c = (None, w') \<and>
           putsOf (trace w') = putsOf (trace w) @ map taskPutB files"
  using assms
proof (induction files arbitrary: w c)
  case Nil
  then show ?case by simp
next
  case (Cons g files)
  from Cons.prems obtain buf where d: "download g 0 = DlBuffer buf"
    by (cases "download g 0") auto
  have p: "putObject env (uploadParamsB g buf) = None"
    using Cons.prems d by (simp add: taskPutB_def)
  let ?w1 = "emit (LogTransferred (c + 1) tf (name g))
      ((emits [CallPut (uploadParamsB g buf)] (emit (CallDownload (name g) 0) w))
         \<lparr>bucket := putInto (uploadParamsB g buf) (bucket w)\<rparr>)"
  have step: "transferFilesB env tf (g # files) w c = transferFilesB env tf files ?w1 (c + 1)"
    using d p by (simp add: s3Put_closed)
  from Cons.IH [of ?w1 "c + 1"] Cons.prems obtain w' where
    "transferFilesB env tf files ?w1 (c + 1) = (None, w')"
    "putsOf (trace w') = putsOf (trace ?w1) @ map taskPutB files" by auto
  then show ?case using step d by (simp add: taskPutB_def)
qed

lemma nullAsThrow_facts [simp]:
  "dlFails (nullAsThrow d) = dlFails d"
  "failureOf (nullAsThrow d) = failureOf d"
  "\<not> dlFails d \<Longrightarrow> bufferOf (nullAsThrow d) = bufferOf d"
  by (cases d rule: nullAsThrow.cases; simp)+

lemma downloadAttempts_nullAsThrow:
  "downloadAttempts (g\<lparr>download := (\<lambda>i. nullAsThrow (download g i))\<rparr>) 0 w = downloadAttempts g 0 w"
  by (simp add: downloadAttempts_closed downloadResult_def downloadEvents_def retryEvents_def)

lemma transferTask_nullAsThrow:
  "transferTask env tf (g\<lparr>download := (\<lambda>i. nullAsThrow (download g i))\<rparr>) w c = transferTask env tf g w c"
  by (simp add: transferTask_def downloadAttempts_nullAsThrow uploadParams_def
        split: prod.splits option.splits)

lemma downloadCalls_downloadEvents:
  "downloadCalls (name g) (downloadEvents g) =
     (if \<not> dlFails (download g 0) then 1 else if \<not> dlFails (download g 1) then 2 else 3)"
  by (simp add: downloadEvents_def retryEvents_def)

lemma downloadCalls_taskEvents:
  "downloadCalls (name g) (taskEvents env tf g c) =
     (if \<not> dlFails (download g 0) then 1 else if \<not> dlFails (download g 1) then 2 else 3)"
  by (simp add: taskEvents_def downloadCalls_downloadEvents split: option.splits)

lemma putsOf_downloadEvents [simp]: "putsOf (downloadEvents g) = []"
  by (simp add: downloadEvents_def retryEvents_def)

lemma putsOf_taskEvents:
  "putsOf (taskEvents env tf g c) =
     (case downloadResult g of None \<Rightarrow> [] | Some b \<Rightarrow> [uploadParams g b])"
  by (simp add: taskEvents_def split: option.splits)

subsection \<open>The run as a whole\<close>







lemmas env_defs = objectsEnv_def serveObjects_def s3ListObjectsV2_def startsWith_def
  noPutError_def failPut_def folderOptions_def folderPrefix_def presenceListParams_def
  diffListParams_def


lemma folderStarts_append [simp]: "folderStarts (a @ b) = folderStarts a @ folderStarts b"
  by (induction a rule: folderStarts.induct) auto

lemma folderStarts_taskEvents [simp]: "folderStarts (taskEvents env tf g c) = []"
  by (simp add: taskEvents_def downloadEvents_def retryEvents_def split: option.splits)





subsection \<open>The destination listing and the full diff\<close>

lemma startsWith_append [simp]: "startsWith (p @ s) p"
  by (simp add: startsWith_def)

lemma s3_first_page:
  "s3ListObjectsV2 cap b \<lparr>Prefix = p, MaxKeys = None, ContinuationToken = None\<rparr> =
     Inr \<lparr>Contents =
            (if take cap (filter (\<lambda>k. startsWith k p) (map Key b)) = [] then None
             else Some (map Some (take cap (filter (\<lambda>k. startsWith k p) (map Key b))))),
          NextContinuationToken =
            (if take cap (filter (\<lambda>k. startsWith k p) (map Key b)) \<noteq> [] \<and>
                length (take cap (filter (\<lambda>k. startsWith k p) (map Key b)))
                  < length (filter (\<lambda>k. startsWith k p) (map Key b))
             then Some (last (take cap (filter (\<lambda>k. startsWith k p) (map Key b))))
             else None)\<rparr>"
  unfolding s3ListObjectsV2_def Let_def by simp

lemma s3_first_page_truncated:
  assumes cap: "0 < cap"
    and many: "cap < length (filter (\<lambda>k. startsWith k p) (map Key b))"
    and keys: "[] \<notin> Key ` set b"
  shows "\<exists>resp. s3ListObjectsV2 cap b \<lparr>Prefix = p, MaxKeys = None, ContinuationToken = None\<rparr>
                  = Inr resp \<and> truthy (NextContinuationToken resp)"
proof -
  define ks where "ks = filter (\<lambda>k. startsWith k p) (map Key b)"
  have many': "cap < length ks" using many by (simp only: ks_def)
  have ne: "take cap ks \<noteq> []" using cap many' by auto
  have len: "length (take cap ks) < length ks" using many' by simp
  have "last (take cap ks) \<in> set (take cap ks)" using ne by simp
  then have "last (take cap ks) \<in> set ks" by (rule in_set_takeD)
  then have "last (take cap ks) \<in> Key ` set b" unfolding ks_def by auto
  then have tok: "last (take cap ks) \<noteq> []" using keys by metis
  have "s3ListObjectsV2 cap b \<lparr>Prefix = p, MaxKeys = None, ContinuationToken = None\<rparr> =
     Inr \<lparr>Contents = (if take cap ks = [] then None else Some (map Some (take cap ks))),
          NextContinuationToken =
            (if take cap ks \<noteq> [] \<and> length (take cap ks) < length ks
             then Some (last (take cap ks)) else None)\<rparr>"
    unfolding ks_def by (rule s3_first_page)
  then show ?thesis using ne len tok by simp
qed

lemma s3_first_page_complete:
  assumes "length (filter (\<lambda>k. startsWith k p) (map Key b)) \<le> cap"
  shows "s3ListObjectsV2 cap b \<lparr>Prefix = p, MaxKeys = None, ContinuationToken = None\<rparr> =
           Inr \<lparr>Contents = (if filter (\<lambda>k. startsWith k p) (map Key b) = [] then None
                             else Some (map Some (filter (\<lambda>k. startsWith k p) (map Key b)))),
                NextContinuationToken = None\<rparr>"
proof -
  define ks where "ks = filter (\<lambda>k. startsWith k p) (map Key b)"
  have "take cap ks = ks" using assms by (simp only: ks_def take_all)
  then show ?thesis
    unfolding s3_first_page ks_def [symmetric] by simp
qed

lemma length_filter_ge_card:
  assumes "A \<subseteq> set xs" "\<forall>k\<in>A. P k"
  shows "card A \<le> length (filter P xs)"
proof -
  have "A \<subseteq> set (filter P xs)" using assms by auto
  then have "card A \<le> card (set (filter P xs))" by (simp add: card_mono)
  also have "\<dots> \<le> length (filter P xs)" by (rule card_length)
  finally show ?thesis .
qed

text \<open>The sample source.\<close>

lemma name_mkFile [simp]: "name (mkFile k t d) = k"
  by (simp add: mkFile_def)

lemma names_manyObjects:
  "map name (manyObjects n) = map (\<lambda>i. ''root/f1/'' @ replicate (Suc i) CHR ''x'') [0..<n]"
  by (simp add: manyObjects_def comp_def)

lemma distinct_manyObjects: "distinct (map name (manyObjects n))"
proof -
  have "inj (\<lambda>i. ''root/f1/'' @ replicate (Suc i) CHR ''x'')"
  proof (rule injI)
    fix i j :: nat
    assume "''root/f1/'' @ replicate (Suc i) CHR ''x'' = ''root/f1/'' @ replicate (Suc j) CHR ''x''"
    then have "length (replicate (Suc i) CHR ''x'') = length (replicate (Suc j) CHR ''x'')"
      by simp
    then show "i = j" by simp
  qed
  then show ?thesis
    unfolding names_manyObjects by (simp add: distinct_map inj_on_def)
qed

lemma distinct_bigSource: "distinct (map name bigSource)"
  using distinct_manyObjects [of 1000]
  by (auto simp: bigSource_def names_manyObjects)

lemma length_bigSource: "length bigSource = 1001"
  by (simp add: bigSource_def manyObjects_def)

lemma card_names_bigSource: "card (name ` set bigSource) = 1001"
  using distinct_card [OF distinct_bigSource] length_bigSource by simp

lemma bigSource_prefix: "g \<in> set bigSource \<Longrightarrow> startsWith (name g) ''root/f1/''"
  by (auto simp: bigSource_def manyObjects_def startsWith_def)

lemma bigSource_root: "g \<in> set bigSource \<Longrightarrow> startsWith (name g) ''root/''"
  by (auto simp: bigSource_def manyObjects_def startsWith_def)

lemma bigSource_nonempty_names: "[] \<notin> name ` set bigSource"
  by (auto simp: bigSource_def manyObjects_def)

text \<open>With a destination listing that comes in one response, the diff is the set
  difference, and a folder whose keys are all listed is counted without any transfer.\<close>

lemma diffFolder_single_page:
  assumes lst: "listObjectsV2 env (bucket w) (diffListParams cfg fo) = Inr resp"
    and tok: "\<not> truthy (NextContinuationToken resp)"
    and src: "getFiles env (folderOptions cfg fo) = Inr (gcpFiles, t)"
  shows "\<exists>r2Files todo w'.
           diffFolder (Suc n) cfg env fo w = Some (Inr (r2Files, gcpFiles, todo), w') \<and>
           set r2Files = {k. k \<noteq> [] \<and> (\<exists>items. Contents resp = Some items \<and> Some k \<in> set items)} \<and>
           todo = filter (\<lambda>f. name f \<notin> set r2Files) gcpFiles \<and>
           name ` set todo = name ` set gcpFiles - set r2Files \<and>
           bucket w' = bucket w \<and> putsOf (trace w') = putsOf (trace w)"
proof -
  let ?D = "case Contents resp of None \<Rightarrow> [] | Some items \<Rightarrow> addKeys [] items"
  have D: "set ?D = {k. k \<noteq> [] \<and> (\<exists>items. Contents resp = Some items \<and> Some k \<in> set items)}"
    by (cases "Contents resp") (auto simp: set_addKeys)
  have "diffFolder (Suc n) cfg env fo w =
      Some (Inr (?D, gcpFiles, filesToMigrate ?D gcpFiles),
            emit (LogFoundInGcp (length gcpFiles) (length (filesToMigrate ?D gcpFiles)))
              (emit (CallGetFiles (folderOptions cfg fo))
                (emit (LogFoundExisting (length ?D)) (emits [CallList (diffListParams cfg fo)] w))))"
    unfolding diffFolder_def r2ListLoop_single [OF lst tok] using src by simp
  moreover have "name ` set (filesToMigrate ?D gcpFiles) = name ` set gcpFiles - set ?D"
    by (auto simp: filesToMigrate_def)
  ultimately show ?thesis using D by (simp add: filesToMigrate_def)
qed

lemma synced_folder_is_counted:
  assumes lst: "listObjectsV2 env (bucket w) (diffListParams cfg fo) = Inr resp"
    and tok: "\<not> truthy (NextContinuationToken resp)"
    and src: "getFiles env (folderOptions cfg fo) = Inr (gcpFiles, t)"
    and all: "\<forall>g\<in>set gcpFiles. name g \<noteq> [] \<and>
                (\<exists>items. Contents resp = Some items \<and> Some (name g) \<in> set items)"
  shows "\<exists>w'. processFolderA (Suc n) cfg env tot fo w m = Some (Inr (m + 1), w') \<and>
           bucket w' = bucket w \<and> putsOf (trace w') = putsOf (trace w)"
proof -
  have b: "listObjectsV2 env (bucket (emit (LogStartFolder fo) w)) (diffListParams cfg fo) = Inr resp"
    using lst by simp
  from diffFolder_single_page [OF b tok src, of n] obtain r2Files todo w1 where
    d: "diffFolder (Suc n) cfg env fo (emit (LogStartFolder fo) w) =
          Some (Inr (r2Files, gcpFiles, todo), w1)"
    and D: "set r2Files = {k. k \<noteq> [] \<and> (\<exists>items. Contents resp = Some items \<and> Some k \<in> set items)}"
    and t: "todo = filter (\<lambda>f. name f \<notin> set r2Files) gcpFiles"
    and w1: "bucket w1 = bucket w" "putsOf (trace w1) = putsOf (trace w)"
    by auto
  have "todo = []" unfolding t using all D by (auto simp: filter_empty_conv)
  then show ?thesis using d w1 by (simp add: processFolderA_def logMigrated_def)
qed

subsection \<open>The folder of 1001 objects\<close>

lemma scanLoop_single_page:
  assumes "getFiles env (scanOptions cfg None) = Inr (files, None)" "files \<noteq> []"
  shows "\<exists>st' w'. scanLoop (Suc n) cfg env None st w = Some (Inr st', w') \<and>
           recentFoldersFound st' = foldl (recentStep cfg) (recentFoldersFound st) files \<and>
           bucket w' = bucket w"
  using assms by (simp add: Let_def classifyFiles_recent)

lemma scanPhase_single_page:
  assumes "getFiles env (scanOptions cfg None) = Inr (files, None)" "files \<noteq> []"
  shows "\<exists>ws. scanPhase (Suc n) cfg env w = Some (Inr (foldl (recentStep cfg) [] files), ws) \<and>
           bucket ws = bucket w"
proof -
  let ?w0 = "emit (LogSearching (MINIMUM_DATE cfg)) (emit (LogGettingList (GCP_INTERNAL_PATH cfg)) w)"
  from scanLoop_single_page [OF assms, of n initialScan ?w0] obtain st' w' where
    "scanLoop (Suc n) cfg env None initialScan ?w0 = Some (Inr st', w')"
    "recentFoldersFound st' = foldl (recentStep cfg) [] files" "bucket w' = bucket w"
    by (auto simp: initialScan_def)
  then show ?thesis by (simp add: scanPhase_def Let_def)
qed

lemma foldl_recentStep_none:
  "\<forall>g\<in>set files. fileNameOf (name g) \<noteq> FOLDER_DATE_CHECK_FILE cfg \<Longrightarrow>
     foldl (recentStep cfg) r files = r"
  by (induction files arbitrary: r) (simp_all add: recentStep_def)

lemma manyObjects_not_marker:
  "g \<in> set (manyObjects n) \<Longrightarrow> fileNameOf (name g) \<noteq> ''marker.json''"
proof -
  assume "g \<in> set (manyObjects n)"
  then obtain i where "name g = ''root/f1'' @ CHR ''/'' # replicate (Suc i) CHR ''x''"
    by (auto simp: manyObjects_def)
  then have "fileNameOf (name g) = replicate (Suc i) CHR ''x''"
    using fileNameOf_leaf [of "replicate (Suc i) CHR ''x''" "''root/f1''"] by simp
  then show ?thesis by simp
qed

lemma recent_bigSource: "foldl (recentStep exCfg) [] bigSource = [Some ''f1'']"
proof -
  have "recentStep exCfg [] (mkFile ''root/f1/marker.json'' 1743465600000 okDownload) = [Some ''f1'']"
    by (simp add: recentStep_def sample_defs)
  moreover have "foldl (recentStep exCfg) [Some ''f1''] (manyObjects 1000) = [Some ''f1'']"
    by (rule foldl_recentStep_none) (simp add: manyObjects_not_marker exCfg_def)
  ultimately show ?thesis by (simp add: bigSource_def)
qed

lemma bigEnv_scan: "getFiles bigEnv (scanOptions exCfg None) = Inr (bigSource, None)"
proof -
  have "filter (\<lambda>f. startsWith (name f) ''root/'') bigSource = bigSource"
    by (rule filter_True) (simp add: bigSource_root)
  then show ?thesis
    by (simp add: bigEnv_def objectsEnv_def serveObjects_def scanOptions_def exCfg_def)
qed

lemma bigEnv_folder: "getFiles bigEnv (folderOptions exCfg (Some ''f1'')) = Inr (bigSource, None)"
proof -
  have "filter (\<lambda>f. startsWith (name f) ''root/f1/'') bigSource = bigSource"
    by (rule filter_True) (simp add: bigSource_prefix)
  then show ?thesis
    by (simp add: bigEnv_def objectsEnv_def serveObjects_def folderOptions_def folderPrefix_def
          exCfg_def)
qed

lemma bigSource_ne: "bigSource \<noteq> []"
  by (simp add: bigSource_def)

lemma bigEnv_scanPhase:
  "\<exists>ws. scanPhase (Suc n) exCfg bigEnv w = Some (Inr [Some ''f1''], ws) \<and> bucket ws = bucket w"
  using scanPhase_single_page [OF bigEnv_scan bigSource_ne, of n w] by (simp add: recent_bigSource)

lemma bigEnv_list:
  "listObjectsV2 bigEnv b (diffListParams exCfg (Some ''f1'')) =
     s3ListObjectsV2 1000 b \<lparr>Prefix = ''root/f1/'', MaxKeys = None, ContinuationToken = None\<rparr>"
  by (simp add: bigEnv_def objectsEnv_def diffListParams_def folderPrefix_def exCfg_def)

lemma bigEnv_uploaded: "g \<in> set bigSource \<Longrightarrow> uploaded bigEnv g"
  by (auto simp: uploaded_def downloadResult_def bigEnv_def objectsEnv_def noPutError_def
        bigSource_def manyObjects_def mkFile_def okDownload_def)

text \<open>The first run over an empty bucket uploads everything and finishes.\<close>

lemma bigEnv_first_round:
  assumes empty: "bucket w = []"
  shows "\<exists>w'. processFolderA (Suc n) exCfg bigEnv tot (Some ''f1'') w m = Some (Inr (m + 1), w') \<and>
           Key ` set (bucket w') = name ` set bigSource"
proof -
  let ?fo = "Some ''f1''"
  let ?w0 = "emit (LogStartFolder ?fo) w"
  have "listObjectsV2 bigEnv (bucket ?w0) (diffListParams exCfg ?fo) =
          Inr \<lparr>Contents = None, NextContinuationToken = None\<rparr>"
    using s3_first_page_complete [of "''root/f1/''" "[]" 1000] empty by (simp add: bigEnv_list)
  from r2ListLoop_single [OF this, of n "[]"] have
    l: "r2ListLoop (Suc n) exCfg bigEnv ?fo [] ?w0 =
          Some (Inr [], emits [CallList (diffListParams exCfg ?fo)] ?w0)" by simp
  define w1 where "w1 = emit (LogFoundInGcp (length bigSource) (length bigSource))
      (emit (CallGetFiles (folderOptions exCfg ?fo))
        (emit (LogFoundExisting 0) (emits [CallList (diffListParams exCfg ?fo)] ?w0)))"
  have d: "diffFolder (Suc n) exCfg bigEnv ?fo ?w0 = Some (Inr ([], bigSource, bigSource), w1)"
    unfolding diffFolder_def l by (simp add: bigEnv_folder filesToMigrate_def w1_def)
  have b1: "bucket w1 = []" using empty by (simp add: w1_def)
  obtain rej w2 c where p: "runPool bigEnv (length bigSource) bigSource None w1 0 = (rej, w2, c)"
    by (cases "runPool bigEnv (length bigSource) bigSource None w1 0") auto
  have "rej = None"
    using runPool_rejects [OF p] by (simp add: bigEnv_def objectsEnv_def noPutError_def)
  moreover have "Key ` set (bucket w2) = name ` set bigSource"
    using runPool_bucket_keys [OF p] b1 bigEnv_uploaded by auto
  ultimately show ?thesis
    using d p bigSource_ne by (simp add: processFolderA_def)
qed

lemma bigEnv_first_run:
  assumes "bucket w = []"
  shows "\<exists>w'. findAndProcessRecentFolders (Suc n) exCfg bigEnv w = Some (Fulfilled, w') \<and>
           last (trace w') = LogFinished \<and> Key ` set (bucket w') = name ` set bigSource"
proof -
  from bigEnv_scanPhase [of n w] obtain ws where
    s: "scanPhase (Suc n) exCfg bigEnv w = Some (Inr [Some ''f1''], ws)" and "bucket ws = bucket w"
    by blast
  then have "bucket ws = []" using assms by simp
  from bigEnv_first_round [OF this, of n 1 0] obtain w2 where
    "processFolderA (Suc n) exCfg bigEnv 1 (Some ''f1'') ws 0 = Some (Inr 1, w2)"
    "Key ` set (bucket w2) = name ` set bigSource" by auto
  then show ?thesis
    using s by (simp add: findAndProcessRecentFolders_def tryBodyA_def)
qed

text \<open>A run over a bucket that holds the whole folder never gets past the listing.\<close>

lemma run_stuck_in_listing:
  assumes scan: "\<And>n w. \<exists>ws. scanPhase (Suc n) cfg env w = Some (Inr (fo # rest), ws) \<and>
                          bucket ws = bucket w"
    and lst: "listObjectsV2 env (bucket w) (diffListParams cfg fo) = Inr resp"
    and tok: "truthy (NextContinuationToken resp)"
  shows "findAndProcessRecentFolders n cfg env w = None"
proof (cases n)
  case 0
  then show ?thesis
    by (simp add: findAndProcessRecentFolders_def tryBodyA_def scanPhase_def)
next
  case (Suc k)
  from scan [of k w] obtain ws where
    s: "scanPhase (Suc k) cfg env w = Some (Inr (fo # rest), ws)" and b: "bucket ws = bucket w"
    by blast
  have "listObjectsV2 env (bucket (emit (LogStartFolder fo) ws)) (diffListParams cfg fo) = Inr resp"
    using lst b by simp
  from diffFolder_truncated [OF this tok] have
    "processFolderA (Suc k) cfg env (length (fo # rest)) fo ws 0 = None"
    by (simp add: processFolderA_def)
  then show ?thesis
    using s Suc by (simp add: findAndProcessRecentFolders_def tryBodyA_def)
qed

lemma bigEnv_truncated:
  assumes "name ` set bigSource \<subseteq> Key ` set b" "[] \<notin> Key ` set b"
  shows "\<exists>resp. listObjectsV2 bigEnv b (diffListParams exCfg (Some ''f1'')) = Inr resp \<and>
                  truthy (NextContinuationToken resp)"
proof -
  have "card (name ` set bigSource) \<le> length (filter (\<lambda>k. startsWith k ''root/f1/'') (map Key b))"
    using assms(1) by (intro length_filter_ge_card) (auto simp: bigSource_prefix)
  then have "1000 < length (filter (\<lambda>k. startsWith k ''root/f1/'') (map Key b))"
    by (simp add: card_names_bigSource)
  from s3_first_page_truncated [OF _ this assms(2)] show ?thesis
    by (simp add: bigEnv_list)
qed

subsection \<open>Lines that report a folder as migrated\<close>

lemma migratedLines_append [simp]:
  "migratedLines (a @ b) = migratedLines a + migratedLines b"
  by (simp add: migratedLines_def)

lemma migratedLines_Nil [simp]: "migratedLines [] = 0"
  by (simp add: migratedLines_def)

lemma migratedLines_Cons [simp]:
  "migratedLines (e # es) = (if migratedLine e then 1 else 0) + migratedLines es"
  by (simp add: migratedLines_def)

lemma migratedLines_taskEvents [simp]: "migratedLines (taskEvents env tf g c) = 0"
  by (simp add: taskEvents_def downloadEvents_def retryEvents_def split: option.splits)




subsection \<open>Listing calls that throw\<close>

lemma bucketAfter_Nil [simp]: "bucketAfter env b [] = b"
  by (simp add: bucketAfter_def)

lemma bucketAfter_Cons [simp]:
  "bucketAfter env b (ev # es) = bucketAfter env (bucketStep env b ev) es"
  by (simp add: bucketAfter_def)

lemma bucketAfter_append [simp]:
  "bucketAfter env b (xs @ ys) = bucketAfter env (bucketAfter env b xs) ys"
  by (simp add: bucketAfter_def)




























subsection \<open>More on the scan\<close>

text \<open>
  The recent-folder set of the classifier over any list of records, in the code's own
  terms (\<open>folderNameOf\<close> is \<open>None\<close> for a key of one segment); a folder whose marker records
  are all older than the cutoff is not in it; and over pages none of which is empty the
  scan ends within one request per page with the set of the classifier over all records.
\<close>

lemma classifier_recent_set:
  "set (recentFoldersFound (fst (classifyFiles cfg initialScan files))) =
     {folderNameOf (name f) | f. f \<in> set files \<and>
        fileNameOf (name f) = FOLDER_DATE_CHECK_FILE cfg \<and>
        (\<exists>t. timeCreated f = Some t \<and> MINIMUM_DATE cfg \<le> t)}
   \<and> (\<forall>folder.
        (\<forall>f\<in>set files.
           folderNameOf (name f) = folder \<and> fileNameOf (name f) = FOLDER_DATE_CHECK_FILE cfg
           \<longrightarrow> (\<exists>t. timeCreated f = Some t \<and> t < MINIMUM_DATE cfg))
        \<longrightarrow> folder \<notin> set (recentFoldersFound (fst (classifyFiles cfg initialScan files))))
   \<and> ((\<forall>p\<in>set pages. p \<noteq> []) \<and> getFiles env = servePages pages \<and> length pages < n \<longrightarrow>
        (\<exists>st w'. scanLoop n cfg env None initialScan w = Some (Inr st, w') \<and>
           recentFoldersFound st =
             recentFoldersFound (fst (classifyFiles cfg initialScan (concat pages)))))"
proof -
  let ?r = "recentFoldersFound (fst (classifyFiles cfg initialScan files))"
  have rec: "isRecent cfg f = (\<exists>t. timeCreated f = Some t \<and> MINIMUM_DATE cfg \<le> t)" for f
    by (simp add: isRecent_def split: option.splits)
  have eq: "set ?r =
      {folderNameOf (name f) | f. f \<in> set files \<and>
         fileNameOf (name f) = FOLDER_DATE_CHECK_FILE cfg \<and>
         (\<exists>t. timeCreated f = Some t \<and> MINIMUM_DATE cfg \<le> t)}"
    unfolding classifyFiles_recent set_foldl_recentStep rec by (simp add: initialScan_def)
  have ex: "folder \<notin> set ?r"
    if h: "\<forall>f\<in>set files.
             folderNameOf (name f) = folder \<and> fileNameOf (name f) = FOLDER_DATE_CHECK_FILE cfg
             \<longrightarrow> (\<exists>t. timeCreated f = Some t \<and> t < MINIMUM_DATE cfg)" for folder
  proof
    assume "folder \<in> set ?r"
    then obtain f t where f: "f \<in> set files" "folderNameOf (name f) = folder"
      "fileNameOf (name f) = FOLDER_DATE_CHECK_FILE cfg" "timeCreated f = Some t"
      "MINIMUM_DATE cfg \<le> t"
      unfolding eq by blast
    with h show False by fastforce
  qed
  have scan: "\<exists>st w'. scanLoop n cfg env None initialScan w = Some (Inr st, w') \<and>
           recentFoldersFound st =
             recentFoldersFound (fst (classifyFiles cfg initialScan (concat pages)))"
    if a: "\<forall>p\<in>set pages. p \<noteq> []" and b: "getFiles env = servePages pages"
      and c: "length pages < n"
  proof -
    have "0 \<le> length pages" "length pages - 0 < n" using c by auto
    from scanLoop_pages [OF a b this, of cfg initialScan w] show ?thesis
      by (simp add: tokenOf_def classifyFiles_recent)
  qed
  show ?thesis using eq ex scan by blast
qed

text \<open>
  An empty page ends the scan even when it carries a token
  (\<^verbatim>\<open>if (files.length === 0) break\<close>): the markers of later pages are not seen.
\<close>

lemma empty_page_ends_scan:
  "map_option fst
     (scanPhase 3 exCfg (pagesEnv [[mkFile ''root/f0/a.bin'' 0 okDownload], [],
        [mkFile ''root/f1/marker.json'' 1743465600000 okDownload]]) emptyWorld)
     = Some (Inr [])"
  by (simp add: numeral_3_eq_3 scanPhase_def sample_defs)


section \<open>The claims\<close>

text \<open>
  C1. Full-diff correctness: the task list of a folder is to be the source keys under the
  prefix minus the destination keys gathered by paging through the destination listing.
  The loop that gathers them reads \<^verbatim>\<open>NextContinuationToken\<close> only as its condition and sends
  the same request again, so with a destination that holds more keys under the prefix
  than one response returns (here the 1001 keys of the folder) no number of requests
  ends it and no task list is produced. (For a listing that comes in one response the
  task list is the set difference: \<open>diffFolder_single_page\<close>.)
\<close>

theorem diff_of_large_folder_never_returns:
  "diffFolder n exCfg bigEnv (Some ''f1'') fullWorld = None"
proof -
  have k: "Key ` set (bucket fullWorld) = name ` set bigSource"
    by (simp add: fullWorld_def image_image)
  then have "[] \<notin> Key ` set (bucket fullWorld)" using bigSource_nonempty_names by simp
  with k bigEnv_truncated [of "bucket fullWorld"] obtain resp where
    "listObjectsV2 bigEnv (bucket fullWorld) (diffListParams exCfg (Some ''f1'')) = Inr resp"
    "truthy (NextContinuationToken resp)" by auto
  then show ?thesis by (rule diffFolder_truncated)
qed

text \<open>
  C2. Date-filtered classifier: the recent-folder set of the scan is to be exactly the
  set of folder names, the second-to-last path segments, of the records whose last
  segment is the marker file name and whose creation time is at or after the cutoff.
  The set receives \<^verbatim>\<open>pathParts[pathParts.length - 2]\<close> of every such record with no check
  that the record has such a segment: over a stream that holds the marker of folder f1
  and a marker at the bucket root, whose key is a single segment, the set is f1 and
  \<^verbatim>\<open>undefined\<close>, which is the folder name of no record. This is the defect of C3. (What the
  set holds in general, the inclusive comparison and the scan over pages:
  \<open>classifier_recent_set\<close>; an empty page ends the scan: \<open>empty_page_ends_scan\<close>.)
\<close>

theorem recent_set_holds_undefined:
  "map_option fst
     (scanPhase 2 (exCfg\<lparr>GCP_INTERNAL_PATH := []\<rparr>) (pagesEnv [rootedFiles]) emptyWorld)
     = Some (Inr [Some ''f1'', None]) \<and>
   recentFoldersFound (fst (classifyFiles exCfg initialScan rootedFiles)) = [Some ''f1'', None] \<and>
   map (split CHR ''/'' \<circ> name) rootedFiles = [[''f1'', ''marker.json''], [''marker.json'']]"
  by (simp add: numeral_2_eq_2 scanPhase_def rootedFiles_def sample_defs)

text \<open>
  C3. Folderless objects are to be ignored by the classifier. The all-folders set is
  guarded by \<^verbatim>\<open>if (folderName && fileName)\<close>; the recent-folder set is not. A marker file
  at the bucket root enters the recent-folder set as \<^verbatim>\<open>undefined\<close>, one behind an empty
  segment as the empty string, while the all-folders set stays empty; the folder round
  then lists the prefix \<^verbatim>\<open>undefined/\<close>.
\<close>

theorem folderless_marker_is_recent:
  "map_option fst
     (scanPhase 2 (exCfg\<lparr>GCP_INTERNAL_PATH := []\<rparr>) (pagesEnv [folderlessFiles]) emptyWorld)
     = Some (Inr [None, Some []]) \<and>
   allFoldersFoundInTotal (fst (classifyFiles exCfg initialScan folderlessFiles)) = [] \<and>
   folderPrefix (exCfg\<lparr>GCP_INTERNAL_PATH := []\<rparr>) None = ''undefined/''"
  by (simp add: numeral_2_eq_2 scanPhase_def folderlessFiles_def folderPrefix_def sample_defs)

text \<open>
  C4. Download retry and skip in the worker pool, for a pool of tasks with distinct keys:
  a task whose download fails on the first two attempts and succeeds on the third makes
  exactly one upload call for its key and no skip entry; a task whose download fails on
  all three attempts makes no upload call and exactly one skip entry, every other task
  of the pool whose download succeeds still makes its upload call and, when the upload
  succeeds, leaves its key in the bucket, and the pool is not rejected on its account.
  (\<open>downloadResult\<close> is what the retry loop returns: \<open>downloadAttempts_closed\<close>.)
\<close>

theorem download_retry_and_skip:
  assumes run: "runPool env tf files rej w c = (rej', w', c')"
    and dist: "distinct (map name files)"
    and mem: "f \<in> set files"
  shows "(dlFails (download f 0) \<and> dlFails (download f 1) \<and> \<not> dlFails (download f 2) \<longrightarrow>
            putCalls (name f) (trace w') = putCalls (name f) (trace w) + 1 \<and>
            skipLogs (name f) (trace w') = skipLogs (name f) (trace w))
       \<and> (dlFails (download f 0) \<and> dlFails (download f 1) \<and> dlFails (download f 2) \<longrightarrow>
            putCalls (name f) (trace w') = putCalls (name f) (trace w) \<and>
            skipLogs (name f) (trace w') = skipLogs (name f) (trace w) + 1 \<and>
            (\<forall>g\<in>set files. \<forall>b. downloadResult g = Some b \<longrightarrow>
               putCalls (name g) (trace w') = putCalls (name g) (trace w) + 1 \<and>
               (putObject env (uploadParams g b) = None \<longrightarrow> name g \<in> Key ` set (bucket w'))) \<and>
            (rej = None \<and>
             (\<forall>g\<in>set files. \<forall>b. downloadResult g = Some b \<longrightarrow>
                putObject env (uploadParams g b) = None) \<longrightarrow> rej' = None))"
proof -
  have p: "putCalls (name g) (trace w') =
        putCalls (name g) (trace w) + (if downloadResult g \<noteq> None then 1 else 0)"
    if "g \<in> set files" for g
    using runPool_putCalls_distinct [OF run dist that] .
  have s: "skipLogs (name f) (trace w') =
        skipLogs (name f) (trace w) + (if downloadResult f = None then 1 else 0)"
    using runPool_skipLogs_distinct [OF run dist mem] .
  have b: "name g \<in> Key ` set (bucket w')"
    if "g \<in> set files" "downloadResult g = Some b" "putObject env (uploadParams g b) = None"
    for g b
    using runPool_bucket_keys [OF run] that by (auto simp: uploaded_def)
  have r: "rej' = None"
    if "rej = None" "\<forall>g\<in>set files. \<forall>b. downloadResult g = Some b \<longrightarrow>
                putObject env (uploadParams g b) = None"
    using runPool_rejects [OF run] that by simp
  show ?thesis
    using p [OF mem] s p b r by (auto simp: downloadResult_None)
qed

theorem download_retry_and_skip_witness:
  "distinct (map name exPool) \<and>
   fst (runPool (pagesEnv []) 3 exPool None emptyWorld 0) = None \<and>
   putCalls ''root/f1/a.bin'' (trace (fst (snd (runPool (pagesEnv []) 3 exPool None emptyWorld 0)))) = 1 \<and>
   skipLogs ''root/f1/a.bin'' (trace (fst (snd (runPool (pagesEnv []) 3 exPool None emptyWorld 0)))) = 0 \<and>
   putCalls ''root/f1/b.bin'' (trace (fst (snd (runPool (pagesEnv []) 3 exPool None emptyWorld 0)))) = 0 \<and>
   skipLogs ''root/f1/b.bin'' (trace (fst (snd (runPool (pagesEnv []) 3 exPool None emptyWorld 0)))) = 1 \<and>
   putCalls ''root/f1/c.bin'' (trace (fst (snd (runPool (pagesEnv []) 3 exPool None emptyWorld 0)))) = 1 \<and>
   ''root/f1/c.bin'' \<in> Key ` set (bucket (fst (snd (runPool (pagesEnv []) 3 exPool None emptyWorld 0))))"
proof -
  let ?res = "runPool (pagesEnv []) 3 exPool None emptyWorld 0"
  let ?a = "mkFile ''root/f1/a.bin'' 0 flakyDownload"
  let ?b = "mkFile ''root/f1/b.bin'' 0 deadDownload"
  let ?c = "mkFile ''root/f1/c.bin'' 0 okDownload"
  have run: "?res = (fst ?res, fst (snd ?res), snd (snd ?res))" by simp
  have dist: "distinct (map name exPool)" by (simp add: pool_defs)
  have ma: "?a \<in> set exPool" and mb: "?b \<in> set exPool" and mc: "?c \<in> set exPool"
    by (simp_all add: exPool_def)
  have rc: "downloadResult ?c = Some ''data''"
    by (simp add: downloadResult_def pool_defs)
  have pc: "putObject (pagesEnv []) (uploadParams ?c ''data'') = None"
    by (simp add: pagesEnv_def)
  have pa: "\<forall>g\<in>set exPool. \<forall>b. downloadResult g = Some b \<longrightarrow>
              putObject (pagesEnv []) (uploadParams g b) = None"
    by (simp add: pagesEnv_def)
  show ?thesis
    using download_retry_and_skip [OF run dist ma] download_retry_and_skip [OF run dist mb]
      mc rc pc pa dist
    by (auto simp: pool_defs emptyWorld_def)
qed

text \<open>
  C5. Degenerate buffers. Amended: a download that resolves to a null or undefined buffer
  is treated exactly as a download that throws (the task is the same as with that throw
  in its place): it uses one of the three attempts, and when every attempt throws or
  yields no buffer the object is skipped after three download calls with no upload call
  and one skip entry. An empty buffer is a buffer: it ends the retry loop after that
  attempt and is uploaded as an empty body; the content of a buffer is not inspected.
\<close>

theorem null_buffer_is_download_failure:
  assumes run: "transferTask env tf g w c = (r, w', c')"
  shows "transferTask env tf (g\<lparr>download := (\<lambda>i. nullAsThrow (download g i))\<rparr>) w c = (r, w', c')
    \<and> (dlFails (download g 0) \<and> dlFails (download g 1) \<and> dlFails (download g 2) \<longrightarrow>
         r = None \<and>
         downloadCalls (name g) (trace w') = downloadCalls (name g) (trace w) + 3 \<and>
         putCalls (name g) (trace w') = putCalls (name g) (trace w) \<and>
         skipLogs (name g) (trace w') = skipLogs (name g) (trace w) + 1)
    \<and> (download g 0 = DlBuffer (Some b) \<longrightarrow>
         downloadCalls (name g) (trace w') = downloadCalls (name g) (trace w) + 1 \<and>
         skipLogs (name g) (trace w') = skipLogs (name g) (trace w) \<and>
         putsOf (drop (length (trace w)) (trace w')) = [uploadParams g b] \<and>
         Body (uploadParams g b) = Some b)"
proof -
  note tr = transferTask_trace [OF run]
  have one: "transferTask env tf (g\<lparr>download := (\<lambda>i. nullAsThrow (download g i))\<rparr>) w c = (r, w', c')"
    using run by (simp add: transferTask_nullAsThrow)
  have two: "r = None \<and>
         downloadCalls (name g) (trace w') = downloadCalls (name g) (trace w) + 3 \<and>
         putCalls (name g) (trace w') = putCalls (name g) (trace w) \<and>
         skipLogs (name g) (trace w') = skipLogs (name g) (trace w) + 1"
    if "dlFails (download g 0)" "dlFails (download g 1)" "dlFails (download g 2)"
  proof -
    have "downloadResult g = None" using that by (simp add: downloadResult_None)
    then show ?thesis
      using transferTask_rejects [OF run] that
      by (simp add: tr putCalls_taskEvents skipLogs_taskEvents downloadCalls_taskEvents)
  qed
  have three: "downloadCalls (name g) (trace w') = downloadCalls (name g) (trace w) + 1 \<and>
         skipLogs (name g) (trace w') = skipLogs (name g) (trace w) \<and>
         putsOf (drop (length (trace w)) (trace w')) = [uploadParams g b] \<and>
         Body (uploadParams g b) = Some b"
    if "download g 0 = DlBuffer (Some b)"
  proof -
    have "downloadResult g = Some b" using that by (simp add: downloadResult_def)
    then show ?thesis
      using that
      by (simp add: tr skipLogs_taskEvents downloadCalls_taskEvents putsOf_taskEvents
            uploadParams_def)
  qed
  show ?thesis using one two three by blast
qed

theorem null_buffer_is_download_failure_witness:
  "fst (transferTask (pagesEnv []) 1 (mkFile ''root/f1/n.bin'' 0 nullDownload) emptyWorld 0) = None \<and>
   downloadCalls ''root/f1/n.bin''
     (trace (fst (snd (transferTask (pagesEnv []) 1 (mkFile ''root/f1/n.bin'' 0 nullDownload)
        emptyWorld 0)))) = 3 \<and>
   putCalls ''root/f1/n.bin''
     (trace (fst (snd (transferTask (pagesEnv []) 1 (mkFile ''root/f1/n.bin'' 0 nullDownload)
        emptyWorld 0)))) = 0 \<and>
   skipLogs ''root/f1/n.bin''
     (trace (fst (snd (transferTask (pagesEnv []) 1 (mkFile ''root/f1/n.bin'' 0 nullDownload)
        emptyWorld 0)))) = 1 \<and>
   putsOf (trace (fst (snd (transferTask (pagesEnv []) 1 (mkFile ''root/f1/e.bin'' 0 emptyDownload)
        emptyWorld 0)))) =
     [\<lparr>Key = ''root/f1/e.bin'', Body = Some [], ContentType = Some ''application/json''\<rparr>]"
proof -
  let ?n = "mkFile ''root/f1/n.bin'' 0 nullDownload"
  let ?e = "mkFile ''root/f1/e.bin'' 0 emptyDownload"
  let ?rn = "transferTask (pagesEnv []) 1 ?n emptyWorld 0"
  let ?re = "transferTask (pagesEnv []) 1 ?e emptyWorld 0"
  have n: "?rn = (fst ?rn, fst (snd ?rn), snd (snd ?rn))" by simp
  have e: "?re = (fst ?re, fst (snd ?re), snd (snd ?re))" by simp
  show ?thesis
    using null_buffer_is_download_failure [OF n, of "[]"]
      null_buffer_is_download_failure [OF e, of "[]"]
    by (simp add: mkFile_def nullDownload_def emptyDownload_def emptyWorld_def uploadParams_def)
qed

text \<open>
  C5 as stated fails on the empty buffer: with every attempt yielding an empty buffer the
  first attempt ends the loop and the object is uploaded, not skipped.
\<close>

theorem empty_buffer_is_uploaded:
  "transferTask (pagesEnv []) 1 (mkFile ''root/f1/e.bin'' 0 emptyDownload) emptyWorld 0 =
     (None,
      \<lparr>bucket = [\<lparr>Key = ''root/f1/e.bin'', Body = Some [], ContentType = Some ''application/json''\<rparr>],
       trace = [CallDownload ''root/f1/e.bin'' 0,
                CallPut \<lparr>Key = ''root/f1/e.bin'', Body = Some [],
                         ContentType = Some ''application/json''\<rparr>,
                LogTransferred 1 1 ''root/f1/e.bin'']\<rparr>,
      1)"
  by (simp add: transferTask_def downloadAttempts.simps [of _ 0] mkFile_def emptyDownload_def
        s3Put_def Let_def pagesEnv_def emptyWorld_def uploadParams_def putInto_def emit_def)







text \<open>
  C8. Idempotent re-run: after a run in which every task succeeded, a second run over the
  unchanged source is to find nothing to transfer. For the folder of 1001 objects the
  first run finishes with every key in the bucket; the second run then never returns,
  whatever the number of requests allowed: its destination listing is truncated and the
  loop repeats the first request. This is the defect of C1. (For a listing that comes in
  one response and holds every source key the folder is counted with no upload:
  \<open>synced_folder_is_counted\<close>.)
\<close>

theorem rerun_after_full_success_never_returns:
  "\<exists>w1. findAndProcessRecentFolders 1 exCfg bigEnv emptyWorld = Some (Fulfilled, w1) \<and>
         last (trace w1) = LogFinished \<and>
         Key ` set (bucket w1) = name ` set bigSource \<and>
         (\<forall>n. findAndProcessRecentFolders n exCfg bigEnv w1 = None)"
proof -
  have "bucket emptyWorld = []" by (simp add: emptyWorld_def)
  from bigEnv_first_run [OF this, of 0] obtain w1 where
    r: "findAndProcessRecentFolders 1 exCfg bigEnv emptyWorld = Some (Fulfilled, w1)"
    and f: "last (trace w1) = LogFinished"
    and k: "Key ` set (bucket w1) = name ` set bigSource" by auto
  have "[] \<notin> Key ` set (bucket w1)" using k bigSource_nonempty_names by simp
  with k bigEnv_truncated [of "bucket w1"] obtain resp where
    "listObjectsV2 bigEnv (bucket w1) (diffListParams exCfg (Some ''f1'')) = Inr resp"
    "truthy (NextContinuationToken resp)" by auto
  then have "findAndProcessRecentFolders n exCfg bigEnv w1 = None" for n
    using run_stuck_in_listing [of exCfg bigEnv "Some ''f1''" "[]" w1 resp n] bigEnv_scanPhase
    by blast
  with r f k show ?thesis by blast
qed

text \<open>
  C9. Presence check (variant B): the folder round lists the destination under the
  folder's prefix with \<^verbatim>\<open>MaxKeys: 1\<close>, first of all. When the response holds at least one
  item the round ends there: the folder is counted as migrated, with no source listing,
  no download and no upload. When it holds none, the source is listed under the same
  prefix and every file of that listing is transferred: with no download or upload
  throwing, the uploads are one per listed file, in order, and the folder is counted.
\<close>

theorem presence_check_semantics:
  assumes run: "processFolderB cfg env tot fo w m = (r, w')"
    and lst: "listObjectsV2 env (bucket w) (presenceListParams cfg fo) = Inr resp"
  shows "MaxKeys (presenceListParams cfg fo) = Some 1
    \<and> Prefix (presenceListParams cfg fo) = GCP_INTERNAL_PATH cfg @ js_str fo @ ''/''
    \<and> take 2 (drop (length (trace w)) (trace w')) =
        [LogStartFolder fo, CallList (presenceListParams cfg fo)]
    \<and> ((\<exists>item items. Contents resp = Some (item # items)) \<longrightarrow>
          r = Inr (m + 1) \<and> bucket w' = bucket w \<and>
          trace w' = trace w @ [LogStartFolder fo, CallList (presenceListParams cfg fo),
                                LogAlreadyExists fo, logMigrated (m + 1) tot])
    \<and> ((Contents resp = None \<or> Contents resp = Some []) \<and>
        getFiles env (folderOptions cfg fo) = Inr (gcpFiles, tok) \<and>
        (\<forall>g\<in>set gcpFiles. \<not> dlThrows (download g 0) \<and> putObject env (taskPutB g) = None) \<longrightarrow>
          r = Inr (m + 1) \<and>
          putsOf (drop (length (trace w)) (trace w')) = map taskPutB gcpFiles)"
proof -
  have a: "MaxKeys (presenceListParams cfg fo) = Some 1"
    "Prefix (presenceListParams cfg fo) = GCP_INTERNAL_PATH cfg @ js_str fo @ ''/''"
    by (simp_all add: presenceListParams_def folderPrefix_def)
  let ?w1 = "emit (CallList (presenceListParams cfg fo)) (emit (LogStartFolder fo) w)"
  have b: "r = Inr (m + 1) \<and> bucket w' = bucket w \<and>
          trace w' = trace w @ [LogStartFolder fo, CallList (presenceListParams cfg fo),
                                LogAlreadyExists fo, logMigrated (m + 1) tot]"
    if "Contents resp = Some (item # items)" for item items
    using run lst that by (auto simp: processFolderB_def Let_def)
  have c: "r = Inr (m + 1) \<and>
          putsOf (drop (length (trace w)) (trace w')) = map taskPutB gcpFiles"
    if abs: "Contents resp = None \<or> Contents resp = Some []"
      and gf: "getFiles env (folderOptions cfg fo) = Inr (gcpFiles, tok)"
      and ok: "\<forall>g\<in>set gcpFiles. \<not> dlThrows (download g 0) \<and> putObject env (taskPutB g) = None"
  proof (cases "gcpFiles = []")
    case True
    with run lst abs gf show ?thesis
      by (auto simp: processFolderB_def Let_def logMigrated_def)
  next
    case False
    let ?w2 = "emit (LogFoundToTransfer (length gcpFiles))
                 (emit (CallGetFiles (folderOptions cfg fo)) (emit (LogNotFoundInS3 fo) ?w1))"
    from transferFilesB_success [OF ok, of "length gcpFiles" ?w2 0] obtain w3 where
      t: "transferFilesB env (length gcpFiles) gcpFiles ?w2 0 = (None, w3)"
      and p: "putsOf (trace w3) = putsOf (trace ?w2) @ map taskPutB gcpFiles" by blast
    from transferFilesB_events [OF t, of "folderPrefix cfg fo"] obtain evs where
      e: "trace w3 = trace ?w2 @ evs" by blast
    have "putsOf evs = map taskPutB gcpFiles" using p e by simp
    with run lst abs gf False t e show ?thesis
      by (auto simp: processFolderB_def Let_def logMigrated_def)
  qed
  have d: "take 2 (drop (length (trace w)) (trace w')) =
        [LogStartFolder fo, CallList (presenceListParams cfg fo)]"
  proof -
    from processFolderB_events [OF run] obtain evs where e: "trace w' = trace w @ evs" by blast
    have "\<exists>rest. trace w' = trace w @ LogStartFolder fo # CallList (presenceListParams cfg fo) # rest"
    proof (cases "case Contents resp of None \<Rightarrow> False | Some items \<Rightarrow> length items > 0")
      case True
      with run lst show ?thesis by (auto simp: processFolderB_def Let_def)
    next
      case False
      note absent = this
      show ?thesis
      proof (cases "getFiles env (folderOptions cfg fo)")
        case (Inl e)
        with run lst absent show ?thesis by (auto simp: processFolderB_def Let_def)
      next
        case (Inr gr)
        show ?thesis
        proof (cases "length (fst gr) = 0")
          case True
          with run lst absent Inr show ?thesis by (auto simp: processFolderB_def Let_def)
        next
          case False
          let ?w2 = "emit (LogFoundToTransfer (length (fst gr)))
                 (emit (CallGetFiles (folderOptions cfg fo)) (emit (LogNotFoundInS3 fo) ?w1))"
          obtain r3 w3 where t: "transferFilesB env (length (fst gr)) (fst gr) ?w2 0 = (r3, w3)"
            by (cases "transferFilesB env (length (fst gr)) (fst gr) ?w2 0") auto
          from transferFilesB_events [OF t, of "folderPrefix cfg fo"] obtain evs where
            "trace w3 = trace ?w2 @ evs" by blast
          with run lst absent Inr False t show ?thesis
            by (cases r3) (auto simp: processFolderB_def Let_def)
        qed
      qed
    qed
    then show ?thesis by auto
  qed
  show ?thesis using a b c d by blast
qed

theorem presence_check_semantics_witness:
  "fst (processFolderB exCfg (objectsEnv 1000 twoFolders noPutError) 2 (Some ''f1'')
       leftoverWorld 0) = Inr 1 \<and>
   trace (snd (processFolderB exCfg (objectsEnv 1000 twoFolders noPutError) 2 (Some ''f1'')
       leftoverWorld 0)) =
     [LogStartFolder (Some ''f1''),
      CallList \<lparr>Prefix = ''root/f1/'', MaxKeys = Some 1, ContinuationToken = None\<rparr>,
      LogAlreadyExists (Some ''f1''), LogFoldersMigrated 1 2 1] \<and>
   fst (processFolderB exCfg (objectsEnv 1000 twoFolders noPutError) 2 (Some ''f1'') emptyWorld 0)
     = Inr 1 \<and>
   putsOf (trace (snd (processFolderB exCfg (objectsEnv 1000 twoFolders noPutError) 2 (Some ''f1'')
       emptyWorld 0))) =
     [\<lparr>Key = ''root/f1/marker.json'', Body = Some ''data'', ContentType = Some ''application/json''\<rparr>,
      \<lparr>Key = ''root/f1/a.bin'', Body = Some ''data'', ContentType = Some ''application/json''\<rparr>]"
proof -
  let ?env = "objectsEnv 1000 twoFolders noPutError"
  let ?r1 = "processFolderB exCfg ?env 2 (Some ''f1'') leftoverWorld 0"
  let ?r2 = "processFolderB exCfg ?env 2 (Some ''f1'') emptyWorld 0"
  let ?fm = "mkFile ''root/f1/marker.json'' 1743465600000 okDownload"
  let ?fa = "mkFile ''root/f1/a.bin'' 1743465600000 okDownload"
  have run1: "?r1 = (fst ?r1, snd ?r1)" and run2: "?r2 = (fst ?r2, snd ?r2)" by simp_all
  have l1: "listObjectsV2 ?env (bucket leftoverWorld) (presenceListParams exCfg (Some ''f1''))
      = Inr \<lparr>Contents = Some [Some ''root/f1/old.bin''], NextContinuationToken = None\<rparr>"
    by (simp add: env_defs leftoverWorld_def exCfg_def)
  have l2: "listObjectsV2 ?env (bucket emptyWorld) (presenceListParams exCfg (Some ''f1''))
      = Inr \<lparr>Contents = None, NextContinuationToken = None\<rparr>"
    by (simp add: env_defs emptyWorld_def exCfg_def)
  have g: "getFiles ?env (folderOptions exCfg (Some ''f1'')) = Inr ([?fm, ?fa], None)"
    by (simp add: env_defs twoFolders_def exCfg_def mkFile_def)
  have ok: "\<forall>g\<in>set [?fm, ?fa]. \<not> dlThrows (download g 0) \<and> putObject ?env (taskPutB g) = None"
    by (simp add: env_defs mkFile_def okDownload_def)
  have a: "fst ?r1 = Inr 1 \<and> bucket (snd ?r1) = bucket leftoverWorld \<and>
      trace (snd ?r1) = trace leftoverWorld @
        [LogStartFolder (Some ''f1''), CallList (presenceListParams exCfg (Some ''f1'')),
         LogAlreadyExists (Some ''f1''), logMigrated (0 + 1) 2]"
    using presence_check_semantics [OF run1 l1] by simp
  have b: "fst ?r2 = Inr 1 \<and> putsOf (trace (snd ?r2)) = map taskPutB [?fm, ?fa]"
    using presence_check_semantics [OF run2 l2, of "[?fm, ?fa]" None] g ok
    by (simp add: emptyWorld_def)
  show ?thesis
    using a b
    by (simp add: leftoverWorld_def presenceListParams_def folderPrefix_def exCfg_def
          logMigrated_def taskPutB_def uploadParamsB_def mkFile_def okDownload_def)
qed

text \<open>
  C10. Folder identity is the bare second-to-last segment: two keys with the same
  second-to-last segment get the same folder name whatever precedes it; a recent marker
  stores only that segment; every listing of the folder round (either variant) carries
  the prefix \<^verbatim>\<open>GCP_INTERNAL_PATH + folderName + '/'\<close>; so for a marker nested below further
  segments the prefix differs from the marker's parent path.
\<close>

theorem folder_identity_is_bare_segment:
  assumes seg: "CHR ''/'' \<notin> set seg"
    and leaf1: "CHR ''/'' \<notin> set leaf1" and leaf2: "CHR ''/'' \<notin> set leaf2"
    and pre1: "pre1 = [] \<or> last pre1 = CHR ''/''"
    and pre2: "pre2 = [] \<or> last pre2 = CHR ''/''"
    and key1: "key1 = pre1 @ seg @ ''/'' @ leaf1"
    and key2: "key2 = pre2 @ seg @ ''/'' @ leaf2"
  shows "folderNameOf key1 = Some seg \<and> folderNameOf key2 = Some seg
    \<and> (name g = key1 \<and> leaf1 = FOLDER_DATE_CHECK_FILE cfg \<and> isRecent cfg g \<longrightarrow>
         recentFoldersFound (fst (classifyFile cfg (st, k) g)) =
           set_add (Some seg) (recentFoldersFound st))
    \<and> (processFolderA n cfg env tot (folderNameOf key1) w m = Some (r, w') \<longrightarrow>
         (\<exists>evs. trace w' = trace w @ evs \<and>
            (\<forall>req. CallList req \<in> set evs \<longrightarrow> Prefix req = GCP_INTERNAL_PATH cfg @ seg @ ''/'') \<and>
            (\<forall>opts. CallGetFiles opts \<in> set evs \<longrightarrow>
                 prefix opts = GCP_INTERNAL_PATH cfg @ seg @ ''/'')))
    \<and> (processFolderB cfg env tot (folderNameOf key1) w m = (rb, wb) \<longrightarrow>
         (\<exists>evs. trace wb = trace w @ evs \<and>
            (\<forall>req. CallList req \<in> set evs \<longrightarrow> Prefix req = GCP_INTERNAL_PATH cfg @ seg @ ''/'') \<and>
            (\<forall>opts. CallGetFiles opts \<in> set evs \<longrightarrow>
                 prefix opts = GCP_INTERNAL_PATH cfg @ seg @ ''/'')))
    \<and> (pre1 = GCP_INTERNAL_PATH cfg @ mid \<and> mid \<noteq> [] \<longrightarrow>
         folderPrefix cfg (folderNameOf key1) \<noteq> pre1 @ seg @ ''/'')"
proof -
  have f1: "folderNameOf key1 = Some seg"
    unfolding key1 by (rule folderNameOf_segment [OF seg leaf1 pre1])
  have f2: "folderNameOf key2 = Some seg"
    unfolding key2 by (rule folderNameOf_segment [OF seg leaf2 pre2])
  have fp: "folderPrefix cfg (Some seg) = GCP_INTERNAL_PATH cfg @ seg @ ''/''"
    by (simp add: folderPrefix_def)
  have ev: "\<exists>evs. trace v = trace w @ evs \<and>
            (\<forall>req. CallList req \<in> set evs \<longrightarrow> Prefix req = GCP_INTERNAL_PATH cfg @ seg @ ''/'') \<and>
            (\<forall>opts. CallGetFiles opts \<in> set evs \<longrightarrow>
                 prefix opts = GCP_INTERNAL_PATH cfg @ seg @ ''/'')"
    if "\<exists>evs. trace v = trace w @ evs \<and> list_all (folderEvent (folderPrefix cfg (Some seg))) evs"
    for v
  proof -
    from that obtain evs where e: "trace v = trace w @ evs"
      "list_all (folderEvent (folderPrefix cfg (Some seg))) evs" by blast
    have "Prefix req = GCP_INTERNAL_PATH cfg @ seg @ ''/''" if "CallList req \<in> set evs" for req
      using e(2) that fp by (force simp: list_all_iff)
    moreover
    have "prefix opts = GCP_INTERNAL_PATH cfg @ seg @ ''/''" if "CallGetFiles opts \<in> set evs" for opts
      using e(2) that fp by (force simp: list_all_iff)
    ultimately show ?thesis using e(1) by blast
  qed
  have c: "recentFoldersFound (fst (classifyFile cfg (st, k) g)) =
           set_add (Some seg) (recentFoldersFound st)"
    if "name g = key1" "leaf1 = FOLDER_DATE_CHECK_FILE cfg" "isRecent cfg g"
    using that f1 fileNameOf_segment [OF leaf1, of pre1 seg] key1
    by (simp add: classifyFile_recent recentStep_def)
  have d: "folderPrefix cfg (folderNameOf key1) \<noteq> pre1 @ seg @ ''/''"
    if "pre1 = GCP_INTERNAL_PATH cfg @ mid" "mid \<noteq> []"
    using that f1 by (simp add: fp)
  show ?thesis
    using f1 f2 c d ev [OF processFolderA_events] ev [OF processFolderB_events]
    by (simp add: f1)
qed

theorem folder_identity_is_bare_segment_witness:
  "folderNameOf ''root/2024/f1/marker.json'' = Some ''f1'' \<and>
   folderNameOf ''root/f1/a.bin'' = Some ''f1'' \<and>
   recentFoldersFound (fst (classifyFile exCfg (initialScan, 0) nestedMarker)) = [Some ''f1''] \<and>
   folderPrefix exCfg (folderNameOf ''root/2024/f1/marker.json'') \<noteq> ''root/2024/f1/'' \<and>
   processFolderA 1 exCfg (objectsEnv 1000 [nestedMarker] noPutError) 1
       (folderNameOf ''root/2024/f1/marker.json'') emptyWorld 0 =
     Some (Inr 1,
       \<lparr>bucket = [],
        trace = [LogStartFolder (Some ''f1''),
                 CallList \<lparr>Prefix = ''root/f1/'', MaxKeys = None, ContinuationToken = None\<rparr>,
                 LogFoundExisting 0,
                 CallGetFiles \<lparr>prefix = ''root/f1/'', maxResults = None, pageToken = None\<rparr>,
                 LogFoundInGcp 0 0, LogFullySynced, LogFoldersMigrated 1 1 0]\<rparr>)"
proof -
  have k1: "''root/2024/f1/marker.json'' = ''root/2024/'' @ ''f1'' @ ''/'' @ ''marker.json''"
    and k2: "''root/f1/a.bin'' = ''root/'' @ ''f1'' @ ''/'' @ ''a.bin''" by simp_all
  have h: "CHR ''/'' \<notin> set ''f1''" "CHR ''/'' \<notin> set ''marker.json''" "CHR ''/'' \<notin> set ''a.bin''"
    "''root/2024/'' = [] \<or> last ''root/2024/'' = CHR ''/''"
    "''root/'' = [] \<or> last ''root/'' = CHR ''/''" by simp_all
  have ev: "processFolderA 1 exCfg (objectsEnv 1000 [nestedMarker] noPutError) 1
       (Some ''f1'') emptyWorld 0 =
     Some (Inr 1,
       \<lparr>bucket = [],
        trace = [LogStartFolder (Some ''f1''),
                 CallList \<lparr>Prefix = ''root/f1/'', MaxKeys = None, ContinuationToken = None\<rparr>,
                 LogFoundExisting 0,
                 CallGetFiles \<lparr>prefix = ''root/f1/'', maxResults = None, pageToken = None\<rparr>,
                 LogFoundInGcp 0 0, LogFullySynced, LogFoldersMigrated 1 1 0]\<rparr>)"
    by (simp add: processFolderA_def diffFolder_def env_defs nestedMarker_def mkFile_def
          exCfg_def emptyWorld_def emit_def filesToMigrate_def logMigrated_def)
  have t: "folderNameOf ''root/2024/f1/marker.json'' = Some ''f1'' \<and>
      folderNameOf ''root/f1/a.bin'' = Some ''f1'' \<and>
      recentFoldersFound (fst (classifyFile exCfg (initialScan, 0) nestedMarker)) =
        set_add (Some ''f1'') (recentFoldersFound initialScan) \<and>
      folderPrefix exCfg (folderNameOf ''root/2024/f1/marker.json'') \<noteq> ''root/2024/f1/''"
    using folder_identity_is_bare_segment [OF h k1 k2, where g = nestedMarker and cfg = exCfg
        and mid = "''2024/''" and st = initialScan and k = 0 and n = 1 and tot = 1
        and env = "objectsEnv 1000 [nestedMarker] noPutError" and w = emptyWorld and m = 0
        and r = "Inr 1"
        and w' = "\<lparr>bucket = [],
              trace = [LogStartFolder (Some ''f1''),
                 CallList \<lparr>Prefix = ''root/f1/'', MaxKeys = None, ContinuationToken = None\<rparr>,
                 LogFoundExisting 0,
                 CallGetFiles \<lparr>prefix = ''root/f1/'', maxResults = None, pageToken = None\<rparr>,
                 LogFoundInGcp 0 0, LogFullySynced, LogFoldersMigrated 1 1 0]\<rparr>"
        and rb = "fst (processFolderB exCfg (objectsEnv 1000 [nestedMarker] noPutError) 1
                        (folderNameOf ''root/2024/f1/marker.json'') emptyWorld 0)"
        and wb = "snd (processFolderB exCfg (objectsEnv 1000 [nestedMarker] noPutError) 1
                        (folderNameOf ''root/2024/f1/marker.json'') emptyWorld 0)"]
    by (auto simp: nestedMarker_def mkFile_def exCfg_def isRecent_def)
  show ?thesis
    using t ev by (auto simp: initialScan_def set_add_def)
qed

end
